theory Spec2Isabelle
  imports Main "HOL-Library.Sublist" "HOL-Library.AList"
begin

section \<open>The transfer HTTP cache interceptor\<close>

text \<open>
  A shallow embedding of \<^verbatim>\<open>TransferHttpCacheInterceptor\<close>. The interceptor's own code
  (\<^verbatim>\<open>getHeadersMap\<close>, \<^verbatim>\<open>invalidateCacheEntry\<close>, the constructor's stability callback,
  \<^verbatim>\<open>intercept\<close>, \<^verbatim>\<open>isAllowed\<close>, \<^verbatim>\<open>getKey\<close>, \<^verbatim>\<open>isMutating\<close>) is translated function by
  function. The host framework is not part of the repository and enters in three ways:
  \<^item> the \<^verbatim>\<open>TransferState\<close> is a key/value map with the four methods the interceptor calls,
    each of which also appends itself to a log of calls, so that "the store was not
    touched" can be stated;
  \<^item> the classes \<^verbatim>\<open>HttpHeaders\<close> and \<^verbatim>\<open>HttpResponse\<close> are parameters: the methods and
    constructors the interceptor uses are the fields of a record \<open>framework\<close>. Where a
    property speaks of the fields of a response that the framework has built, the two
    classes are modelled from the spec (\<open>spec_framework\<close>);
  \<^item> an observable is the list of values it delivers to a subscriber, followed by the
    way it ends;
  \<^item> the pipeline that the constructor sets up on \<^verbatim>\<open>appRef.isStable\<close> is the field
    \<open>stable_promise\<close> of the instance: the promise is pending, or resolved with its
    continuation queued, or the continuation has run.
\<close>

subsection \<open>Requests, responses and events\<close>

record HttpRequest =
  http_method :: string
  url :: string

text \<open>\<^verbatim>\<open>TransferHttpWhitelist\<close>: one allowed URL prefix.\<close>

record TransferHttpWhitelist =
  wl_url :: string

text \<open>
  A plain object \<^verbatim>\<open>{[name: string]: string[]}\<close> that starts as the literal \<^verbatim>\<open>{}\<close>: its own
  properties in the order in which they are enumerated, and its prototype. A value is
  what \<^verbatim>\<open>getAll\<close> returned: \<open>None\<close> is \<^verbatim>\<open>null\<close>, which the non-null assertion of the source
  lets through unchecked. The prototype is \<open>None\<close> as long as it is \<^verbatim>\<open>Object.prototype\<close>,
  and \<open>Some v\<close> once it has been replaced by the value \<open>v\<close>.
\<close>

record headers_map =
  own :: "(string \<times> string list option) list"
  proto :: "string list option option"

definition empty_object :: headers_map where
  "empty_object = \<lparr>own = [], proto = None\<rparr>"

text \<open>
  Own properties are enumerated with the array indices first, in ascending order, then the
  other names in the order of their creation. An array index is the canonical decimal
  numeral of a number up to \<open>2^32 - 2\<close>.
\<close>

definition is_digit :: "char \<Rightarrow> bool" where
  "is_digit c = (48 \<le> (of_char c :: int) \<and> (of_char c :: int) \<le> 57)"

definition numeral_value :: "string \<Rightarrow> int" where
  "numeral_value k = foldl (\<lambda>n c. 10 * n + (of_char c - 48)) 0 k"

definition array_index :: "string \<Rightarrow> int option" where
  "array_index k =
     (case k of
        [] \<Rightarrow> None
      | c # cs \<Rightarrow>
          if list_all is_digit k \<and> (c \<noteq> CHR ''0'' \<or> cs = []) \<and> numeral_value k \<le> 4294967294
          then Some (numeral_value k) else None)"

definition key_before :: "string \<Rightarrow> string \<Rightarrow> bool" where
  "key_before k k' =
     (case array_index k of
        None \<Rightarrow> False
      | Some n \<Rightarrow> (case array_index k' of None \<Rightarrow> True | Some n' \<Rightarrow> n < n'))"

text \<open>The place of a new own property among the existing ones.\<close>

fun insert_property ::
  "string \<Rightarrow> 'v \<Rightarrow> (string \<times> 'v) list \<Rightarrow> (string \<times> 'v) list" where
  "insert_property k v [] = [(k, v)]"
| "insert_property k v (p # ps) =
     (if key_before k (fst p) then (k, v) # p # ps else p # insert_property k v ps)"

text \<open>
  The assignment \<^verbatim>\<open>object[k] = v\<close>, where \<open>v\<close> is an array or \<^verbatim>\<open>null\<close>. For the name
  \<^verbatim>\<open>__proto__\<close> it runs the setter inherited from \<^verbatim>\<open>Object.prototype\<close>, which replaces the
  prototype and creates no property (unless the prototype is already \<^verbatim>\<open>null\<close>, where no
  setter is inherited). For any other name it replaces the value of the own property of
  that name, or creates the property.
\<close>

definition assign :: "string \<Rightarrow> string list option \<Rightarrow> headers_map \<Rightarrow> headers_map" where
  "assign k v object =
     (if k = ''__proto__'' \<and> proto object \<noteq> Some None then object\<lparr>proto := Some v\<rparr>
      else if k \<in> set (map fst (own object))
        then object\<lparr>own := AList.update k v (own object)\<rparr>
        else object\<lparr>own := insert_property k v (own object)\<rparr>)"

text \<open>
  \<^verbatim>\<open>TransferHttpResponse\<close>, the snapshot kept in the store. Every field is optional in the
  source; \<open>None\<close> is an absent (or \<^verbatim>\<open>null\<close>) field.
\<close>

record 'b TransferHttpResponse =
  t_body :: "'b option"
  t_headers :: "headers_map option"
  t_status :: "int option"
  t_statusText :: "string option"
  t_url :: "string option"

text \<open>
  An \<^verbatim>\<open>HttpResponse\<close> as the interceptor reads it: \<open>'b\<close> is the type of bodies (with
  \<^verbatim>\<open>null\<close> among them), \<open>'h\<close> the type of \<^verbatim>\<open>HttpHeaders\<close> objects; the URL may be \<^verbatim>\<open>null\<close>.
\<close>

record ('b, 'h) HttpResponse =
  r_body :: 'b
  r_headers :: 'h
  r_status :: int
  r_statusText :: string
  r_url :: "string option"

text \<open>The argument object of \<^verbatim>\<open>new HttpResponse({...})\<close>.\<close>

record ('b, 'h) HttpResponseInit =
  i_body :: "'b option"
  i_headers :: 'h
  i_status :: "int option"
  i_statusText :: "string option"
  i_url :: "string option"

text \<open>
  \<^verbatim>\<open>HttpEvent\<close>: the interceptor only tests \<^verbatim>\<open>event instanceof HttpResponse\<close>; every other
  kind of event is an \<open>OtherEvent\<close>.
\<close>

datatype ('b, 'h, 'o) HttpEvent =
  ResponseEvent "('b, 'h) HttpResponse"
| OtherEvent 'o

text \<open>The part of the framework the interceptor calls on headers and responses.\<close>

record ('b, 'h) framework =
  keys :: "'h \<Rightarrow> string list"
  getAll :: "'h \<Rightarrow> string \<Rightarrow> string list option"
  newHttpHeaders :: "headers_map option \<Rightarrow> 'h"
  newHttpResponse :: "('b, 'h) HttpResponseInit \<Rightarrow> ('b, 'h) HttpResponse"

subsection \<open>Observables\<close>

datatype 'x ending = Complete | Error 'x

type_synonym ('e, 'x) observable = "'e list \<times> 'x ending"

text \<open>\<^verbatim>\<open>of(v)\<close> delivers \<open>v\<close> and completes.\<close>

definition observableOf :: "'e \<Rightarrow> ('e, 'x) observable" where
  "observableOf v = ([v], Complete)"

text \<open>
  \<^verbatim>\<open>tap(f)\<close>: for each value, run the side effect \<open>f\<close> on the state, then deliver the value;
  the end of the source observable is the end of the result.
\<close>

fun tap_values :: "('e \<Rightarrow> 's \<Rightarrow> 's) \<Rightarrow> 'e list \<Rightarrow> 's \<Rightarrow> 'e list \<times> 's" where
  "tap_values f [] s = ([], s)"
| "tap_values f (e # es) s =
     (let s1 = f e s; (out, s2) = tap_values f es s1 in (e # out, s2))"

definition tap :: "('e \<Rightarrow> 's \<Rightarrow> 's) \<Rightarrow> ('e, 'x) observable \<Rightarrow> 's \<Rightarrow> ('e, 'x) observable \<times> 's" where
  "tap f source s = (let (out, s1) = tap_values f (fst source) s in ((out, snd source), s1))"

subsection \<open>The transfer store\<close>

datatype 'b store_call =
  Call_hasKey string
| Call_get string
| Call_set string "'b TransferHttpResponse"
| Call_remove string

record 'b TransferState =
  store :: "string \<rightharpoonup> 'b TransferHttpResponse"
  calls :: "'b store_call list"

definition hasKey_ts :: "string \<Rightarrow> 'b TransferState \<Rightarrow> bool \<times> 'b TransferState" where
  "hasKey_ts k ts = (store ts k \<noteq> None, ts\<lparr>calls := calls ts @ [Call_hasKey k]\<rparr>)"

definition get_ts ::
  "string \<Rightarrow> 'b TransferHttpResponse \<Rightarrow> 'b TransferState \<Rightarrow> 'b TransferHttpResponse \<times> 'b TransferState" where
  "get_ts k defaultValue ts =
     ((case store ts k of Some v \<Rightarrow> v | None \<Rightarrow> defaultValue),
      ts\<lparr>calls := calls ts @ [Call_get k]\<rparr>)"

definition set_ts :: "string \<Rightarrow> 'b TransferHttpResponse \<Rightarrow> 'b TransferState \<Rightarrow> 'b TransferState" where
  "set_ts k v ts = ts\<lparr>store := (store ts)(k \<mapsto> v), calls := calls ts @ [Call_set k v]\<rparr>"

definition remove_ts :: "string \<Rightarrow> 'b TransferState \<Rightarrow> 'b TransferState" where
  "remove_ts k ts = ts\<lparr>store := (store ts)(k := None), calls := calls ts @ [Call_remove k]\<rparr>"

subsection \<open>The interceptor\<close>

text \<open>
  The promise \<^verbatim>\<open>appRef.isStable.pipe(filter(...), take(1)).toPromise()\<close> of the constructor.
\<close>

datatype stable_promise = Pending | Queued | Continued

record 'b TransferHttpCacheInterceptor =
  isCacheActive :: bool
  transferState :: "'b TransferState"
  whitelist :: "TransferHttpWhitelist list option"
  stable_promise :: stable_promise

text \<open>
  \<^verbatim>\<open>getHeadersMap\<close>: starting from \<^verbatim>\<open>{}\<close>, one assignment
  \<^verbatim>\<open>headersMap[key] = headers.getAll(key)\<close> per key.
\<close>

definition getHeadersMap :: "('b, 'h) framework \<Rightarrow> 'h \<Rightarrow> headers_map" where
  "getHeadersMap fw headers =
     foldl (\<lambda>headersMap key. assign key (getAll fw headers key) headersMap)
       empty_object (keys fw headers)"

text \<open>
  The constructor: the flag starts true, the store and the list are injected, and the
  promise for the first stable notification is pending.
\<close>

definition new_interceptor ::
  "'b TransferState \<Rightarrow> TransferHttpWhitelist list option \<Rightarrow> 'b TransferHttpCacheInterceptor" where
  "new_interceptor ts wl =
     \<lparr>isCacheActive = True, transferState = ts, whitelist = wl, stable_promise = Pending\<rparr>"

text \<open>The continuation \<^verbatim>\<open>() => { this.isCacheActive = false; }\<close> given to \<^verbatim>\<open>then\<close>.\<close>

definition on_stable :: "'b TransferHttpCacheInterceptor \<Rightarrow> 'b TransferHttpCacheInterceptor" where
  "on_stable s = s\<lparr>isCacheActive := False\<rparr>"

text \<open>
  \<^verbatim>\<open>appRef.isStable\<close> delivers a value: \<^verbatim>\<open>filter\<close> drops \<^verbatim>\<open>false\<close>, \<^verbatim>\<open>take(1)\<close> passes the first
  \<^verbatim>\<open>true\<close> and completes, which resolves the promise and queues its continuation. The
  flag is not touched here.
\<close>

definition isStable_next ::
  "bool \<Rightarrow> 'b TransferHttpCacheInterceptor \<Rightarrow> 'b TransferHttpCacheInterceptor" where
  "isStable_next isStable s =
     (if isStable \<and> stable_promise s = Pending then s\<lparr>stable_promise := Queued\<rparr> else s)"

text \<open>
  The queued continuation runs once the code that is running has returned, not before.
\<close>

definition run_continuation ::
  "'b TransferHttpCacheInterceptor \<Rightarrow> 'b TransferHttpCacheInterceptor" where
  "run_continuation s =
     (if stable_promise s = Queued then (on_stable s)\<lparr>stable_promise := Continued\<rparr> else s)"

definition invalidateCacheEntry ::
  "string \<Rightarrow> 'b TransferHttpCacheInterceptor \<Rightarrow> 'b TransferHttpCacheInterceptor" where
  "invalidateCacheEntry u s =
     s\<lparr>transferState :=
         foldl (\<lambda>ts m. remove_ts (m @ ''.'' @ u) ts) (transferState s) [''G'', ''H'', ''P'']\<rparr>"

definition isAllowed :: "'b TransferHttpCacheInterceptor \<Rightarrow> HttpRequest \<Rightarrow> bool" where
  "isAllowed s req =
     (case whitelist s of
        Some wl \<Rightarrow> list_ex (\<lambda>w. prefix (wl_url w) (url req)) wl
      | None \<Rightarrow> False)"

definition getKey :: "HttpRequest \<Rightarrow> string" where
  "getKey req = take 1 (http_method req) @ ''.'' @ url req"

definition isMutating :: "HttpRequest \<Rightarrow> bool" where
  "isMutating req = (http_method req \<noteq> ''GET'' \<and> http_method req \<noteq> ''HEAD'')"

text \<open>The function given to \<^verbatim>\<open>tap\<close>, closed over \<^verbatim>\<open>storeKey\<close>.\<close>

definition record_response ::
  "('b, 'h) framework \<Rightarrow> string \<Rightarrow> ('b, 'h, 'o) HttpEvent \<Rightarrow>
   'b TransferHttpCacheInterceptor \<Rightarrow> 'b TransferHttpCacheInterceptor" where
  "record_response fw storeKey event s =
     (case event of
        ResponseEvent r \<Rightarrow>
          s\<lparr>transferState :=
              set_ts storeKey
                \<lparr>t_body = Some (r_body r),
                 t_headers = Some (getHeadersMap fw (r_headers r)),
                 t_status = Some (r_status r),
                 t_statusText = Some (r_statusText r),
                 t_url = r_url r\<rparr>
                (transferState s)\<rparr>
      | OtherEvent _ \<Rightarrow> s)"

text \<open>
  What \<^verbatim>\<open>intercept\<close> returns: \<^verbatim>\<open>next.handle(req)\<close> as it is, \<^verbatim>\<open>of(new HttpResponse(...))\<close>,
  or \<^verbatim>\<open>next.handle(req).pipe(tap(...))\<close> with the \<^verbatim>\<open>storeKey\<close> of the closure.
\<close>

datatype ('b, 'h) returned =
  Handle HttpRequest
| ObservableOf "('b, 'h) HttpResponse"
| HandleTap HttpRequest string

text \<open>The calls of \<^verbatim>\<open>next.handle\<close> made to build the returned observable.\<close>

fun handle_calls :: "('b, 'h) returned \<Rightarrow> HttpRequest list" where
  "handle_calls (Handle req) = [req]"
| "handle_calls (ObservableOf r) = []"
| "handle_calls (HandleTap req k) = [req]"

definition empty_response :: "'b TransferHttpResponse" where
  "empty_response =
     \<lparr>t_body = None, t_headers = None, t_status = None, t_statusText = None, t_url = None\<rparr>"

definition intercept ::
  "('b, 'h) framework \<Rightarrow> 'b TransferHttpCacheInterceptor \<Rightarrow> HttpRequest \<Rightarrow>
   ('b, 'h) returned \<times> 'b TransferHttpCacheInterceptor" where
  "intercept fw s req =
     (let s1 = (if isMutating req \<or> \<not> isAllowed s req
                then invalidateCacheEntry (url req) (s\<lparr>isCacheActive := False\<rparr>)
                else s)
      in if \<not> isCacheActive s1 then (Handle req, s1)
         else
           let storeKey = getKey req;
               (found, ts1) = hasKey_ts storeKey (transferState s1)
           in if found then
                let (response, ts2) = get_ts storeKey empty_response ts1
                in (ObservableOf
                      (newHttpResponse fw
                         \<lparr>i_body = t_body response,
                          i_headers = newHttpHeaders fw (t_headers response),
                          i_status = t_status response,
                          i_statusText = t_statusText response,
                          i_url = t_url response\<rparr>),
                    s1\<lparr>transferState := ts2\<rparr>)
              else (HandleTap req storeKey, s1\<lparr>transferState := ts1\<rparr>))"

text \<open>
  Subscribing to the returned observable, where \<open>forwarded\<close> is what \<^verbatim>\<open>next.handle(req)\<close>
  delivers and \<open>s\<close> the interceptor's state when the delivery happens.
\<close>

definition subscribe ::
  "('b, 'h) framework \<Rightarrow> ('b, 'h) returned \<Rightarrow> (('b, 'h, 'o) HttpEvent, 'x) observable \<Rightarrow>
   'b TransferHttpCacheInterceptor \<Rightarrow>
   (('b, 'h, 'o) HttpEvent, 'x) observable \<times> 'b TransferHttpCacheInterceptor" where
  "subscribe fw ret forwarded s =
     (case ret of
        Handle req \<Rightarrow> (forwarded, s)
      | ObservableOf r \<Rightarrow> (observableOf (ResponseEvent r), s)
      | HandleTap req storeKey \<Rightarrow> tap (record_response fw storeKey) forwarded s)"

text \<open>
  The life of one instance: requests, each with the observable its handler delivers
  (consumed at once), values delivered by \<^verbatim>\<open>appRef.isStable\<close>, and the points at which the
  running code has returned and a queued continuation runs.
\<close>

datatype ('b, 'h, 'o, 'x) action =
  Request HttpRequest "(('b, 'h, 'o) HttpEvent, 'x) observable"
| IsStable bool
| Continuation

fun step ::
  "('b, 'h) framework \<Rightarrow> 'b TransferHttpCacheInterceptor \<Rightarrow> ('b, 'h, 'o, 'x) action \<Rightarrow>
   'b TransferHttpCacheInterceptor" where
  "step fw s (Request req forwarded) =
     (let (ret, s1) = intercept fw s req in snd (subscribe fw ret forwarded s1))"
| "step fw s (IsStable b) = isStable_next b s"
| "step fw s Continuation = run_continuation s"

definition run ::
  "('b, 'h) framework \<Rightarrow> 'b TransferHttpCacheInterceptor \<Rightarrow> ('b, 'h, 'o, 'x) action list \<Rightarrow>
   'b TransferHttpCacheInterceptor" where
  "run fw s acts = foldl (step fw) s acts"

subsection \<open>Notions used to state the properties\<close>

text \<open>The responses among the values of an observable, in order.\<close>

fun responses :: "('b, 'h, 'o) HttpEvent list \<Rightarrow> ('b, 'h) HttpResponse list" where
  "responses [] = []"
| "responses (ResponseEvent r # es) = r # responses es"
| "responses (OtherEvent x # es) = responses es"

text \<open>The snapshot that \<open>record_response\<close> writes for a response.\<close>

definition snapshot :: "('b, 'h) framework \<Rightarrow> ('b, 'h) HttpResponse \<Rightarrow> 'b TransferHttpResponse" where
  "snapshot fw r =
     \<lparr>t_body = Some (r_body r), t_headers = Some (getHeadersMap fw (r_headers r)),
      t_status = Some (r_status r), t_statusText = Some (r_statusText r), t_url = r_url r\<rparr>"

text \<open>The keys of the \<^verbatim>\<open>set\<close> calls in a log, and the calls one operation added to it.\<close>

fun written_keys :: "'b store_call list \<Rightarrow> string list" where
  "written_keys [] = []"
| "written_keys (Call_set k v # cs) = k # written_keys cs"
| "written_keys (c # cs) = written_keys cs"

definition new_calls ::
  "'b TransferHttpCacheInterceptor \<Rightarrow> 'b TransferHttpCacheInterceptor \<Rightarrow> 'b store_call list" where
  "new_calls s s' = drop (length (calls (transferState s))) (calls (transferState s'))"

subsection \<open>The framework's classes\<close>

text \<open>
  The classes \<^verbatim>\<open>HttpHeaders\<close> and \<^verbatim>\<open>HttpResponse\<close> belong to the framework: the repository
  imports them and does not contain them. The spec describes a response as carrying a
  body, headers, a status, a status text and a final URL, its headers as a mapping from
  header names to ordered sequences of values, and the replayed response as
  reconstructed from the body, headers, status, status text and final URL of the
  snapshot.
\<close>

text \<open>
  Modelled from the spec: the constructor \<^verbatim>\<open>new HttpHeaders(object)\<close>, which is missing from
  the sources. A headers object is the list of its names, each with the sequence of its
  values. It is built from the own properties of the object, in their order. A property
  whose value is \<^verbatim>\<open>null\<close> has no sequence of values and gives no header; an absent object
  gives no headers.
\<close>

definition spec_newHttpHeaders :: "headers_map option \<Rightarrow> (string \<times> string list) list" where
  "spec_newHttpHeaders m =
     (case m of
        None \<Rightarrow> []
      | Some object \<Rightarrow>
          concat (map (\<lambda>p. case snd p of None \<Rightarrow> [] | Some vs \<Rightarrow> [(fst p, vs)]) (own object)))"

text \<open>
  Modelled from the spec: the constructor \<^verbatim>\<open>new HttpResponse({...})\<close>, which is missing from
  the sources. The response has the body, headers, status, status text and URL of the
  argument object. The spec does not say what an absent body, status or status text
  becomes: it becomes that of the response \<open>d\<close>, a parameter.
\<close>

definition spec_newHttpResponse ::
  "('b, 'h) HttpResponse \<Rightarrow> ('b, 'h) HttpResponseInit \<Rightarrow> ('b, 'h) HttpResponse" where
  "spec_newHttpResponse d i =
     \<lparr>r_body = (case i_body i of Some b \<Rightarrow> b | None \<Rightarrow> r_body d),
      r_headers = i_headers i,
      r_status = (case i_status i of Some n \<Rightarrow> n | None \<Rightarrow> r_status d),
      r_statusText = (case i_statusText i of Some t \<Rightarrow> t | None \<Rightarrow> r_statusText d),
      r_url = i_url i\<rparr>"

text \<open>
  Modelled from the spec: the methods \<^verbatim>\<open>keys\<close> and \<^verbatim>\<open>getAll\<close> of \<^verbatim>\<open>HttpHeaders\<close>, which are
  missing from the sources, with the two constructors above. The keys are the names, and
  \<^verbatim>\<open>getAll\<close> gives the sequence of values of a name, or \<^verbatim>\<open>null\<close> for a name that is not
  there.
\<close>

definition spec_framework ::
  "('b, (string \<times> string list) list) HttpResponse \<Rightarrow>
   ('b, (string \<times> string list) list) framework" where
  "spec_framework d =
     \<lparr>keys = map fst, getAll = map_of,
      newHttpHeaders = spec_newHttpHeaders, newHttpResponse = spec_newHttpResponse d\<rparr>"

subsection \<open>Sample data\<close>

definition sample_default :: "(string, (string \<times> string list) list) HttpResponse" where
  "sample_default =
     \<lparr>r_body = [], r_headers = [], r_status = 200, r_statusText = ''OK'', r_url = None\<rparr>"

definition sample_fw :: "(string, (string \<times> string list) list) framework" where
  "sample_fw = spec_framework sample_default"

definition get_x :: HttpRequest where
  "get_x = \<lparr>http_method = ''GET'', url = ''/api/x''\<rparr>"

definition post_x :: HttpRequest where
  "post_x = \<lparr>http_method = ''POST'', url = ''/api/x''\<rparr>"

definition response_x :: "(string, (string \<times> string list) list) HttpResponse" where
  "response_x =
     \<lparr>r_body = ''one'', r_headers = [(''X'', [''a'', ''b''])], r_status = 200,
      r_statusText = ''OK'', r_url = Some ''/api/x''\<rparr>"

definition response_y :: "(string, (string \<times> string list) list) HttpResponse" where
  "response_y =
     \<lparr>r_body = ''two'', r_headers = [], r_status = 200,
      r_statusText = ''OK'', r_url = Some ''/api/x''\<rparr>"

definition response_p :: "(string, (string \<times> string list) list) HttpResponse" where
  "response_p =
     \<lparr>r_body = ''three'', r_headers = [(''__proto__'', [''a'', ''b'']), (''X'', [''c''])],
      r_status = 200, r_statusText = ''OK'', r_url = Some ''/api/x''\<rparr>"

definition empty_ts :: "string TransferState" where
  "empty_ts = \<lparr>store = Map.empty, calls = []\<rparr>"

definition fresh :: "string TransferHttpCacheInterceptor" where
  "fresh = new_interceptor empty_ts (Some [\<lparr>wl_url = ''/api''\<rparr>])"


definition cached :: "string TransferHttpCacheInterceptor" where
  "cached =
     new_interceptor
       \<lparr>store = [''G./api/x'' \<mapsto> snapshot sample_fw response_x], calls = []\<rparr>
       (Some [\<lparr>wl_url = ''/api''\<rparr>])"

section \<open>Properties\<close>

subsection \<open>Auxiliary facts\<close>

lemma written_keys_append: "written_keys (xs @ ys) = written_keys xs @ written_keys ys"
  by (induction xs rule: written_keys.induct) simp_all

lemma new_calls_append:
  "calls (transferState s') = calls (transferState s) @ cs \<Longrightarrow> new_calls s s' = cs"
  by (simp add: new_calls_def)

lemma invalidate_flag: "isCacheActive (invalidateCacheEntry u s) = isCacheActive s"
  by (simp add: invalidateCacheEntry_def)

lemma invalidate_whitelist: "whitelist (invalidateCacheEntry u s) = whitelist s"
  by (simp add: invalidateCacheEntry_def)

lemma invalidate_store:
  "store (transferState (invalidateCacheEntry u s)) =
     (store (transferState s))(''G.'' @ u := None, ''H.'' @ u := None, ''P.'' @ u := None)"
  by (simp add: invalidateCacheEntry_def remove_ts_def)

lemma invalidate_calls:
  "calls (transferState (invalidateCacheEntry u s)) =
     calls (transferState s) @
       [Call_remove (''G.'' @ u), Call_remove (''H.'' @ u), Call_remove (''P.'' @ u)]"
  by (simp add: invalidateCacheEntry_def remove_ts_def)

lemma intercept_disqualified:
  "isMutating req \<or> \<not> isAllowed s req \<Longrightarrow>
   intercept fw s req = (Handle req, invalidateCacheEntry (url req) (s\<lparr>isCacheActive := False\<rparr>))"
  by (auto simp add: intercept_def Let_def invalidate_flag)

lemma intercept_inactive:
  "\<not> isMutating req \<Longrightarrow> isAllowed s req \<Longrightarrow> \<not> isCacheActive s \<Longrightarrow>
   intercept fw s req = (Handle req, s)"
  by (simp add: intercept_def)

lemma intercept_hit:
  "\<not> isMutating req \<Longrightarrow> isAllowed s req \<Longrightarrow> isCacheActive s \<Longrightarrow>
   store (transferState s) (getKey req) = Some v \<Longrightarrow>
   intercept fw s req =
     (ObservableOf
        (newHttpResponse fw
           \<lparr>i_body = t_body v, i_headers = newHttpHeaders fw (t_headers v),
            i_status = t_status v, i_statusText = t_statusText v, i_url = t_url v\<rparr>),
      s\<lparr>transferState := (transferState s)
           \<lparr>calls := calls (transferState s) @ [Call_hasKey (getKey req), Call_get (getKey req)]\<rparr>\<rparr>)"
  by (simp add: intercept_def Let_def hasKey_ts_def get_ts_def)

lemma intercept_miss:
  "\<not> isMutating req \<Longrightarrow> isAllowed s req \<Longrightarrow> isCacheActive s \<Longrightarrow>
   store (transferState s) (getKey req) = None \<Longrightarrow>
   intercept fw s req =
     (HandleTap req (getKey req),
      s\<lparr>transferState := (transferState s)
           \<lparr>calls := calls (transferState s) @ [Call_hasKey (getKey req)]\<rparr>\<rparr>)"
  by (simp add: intercept_def Let_def hasKey_ts_def)

lemma record_response_Response:
  "record_response fw k (ResponseEvent r) s =
     s\<lparr>transferState := set_ts k (snapshot fw r) (transferState s)\<rparr>"
  by (simp add: record_response_def snapshot_def)

lemma record_response_Other: "record_response fw k (OtherEvent x) s = s"
  by (simp add: record_response_def)

lemma tap_values_eq: "tap_values f es s = (es, foldl (\<lambda>s e. f e s) s es)"
  by (induction es arbitrary: s) (simp_all add: Let_def)

lemma tap_eq: "tap f source s = (source, foldl (\<lambda>s e. f e s) s (fst source))"
  by (simp add: tap_def tap_values_eq)

lemma foldl_record_flag:
  "isCacheActive (foldl (\<lambda>s e. record_response fw k e s) s es) = isCacheActive s"
  by (induction es arbitrary: s) (simp_all add: record_response_def split: HttpEvent.splits)

lemma foldl_record_whitelist:
  "whitelist (foldl (\<lambda>s e. record_response fw k e s) s es) = whitelist s"
  by (induction es arbitrary: s) (simp_all add: record_response_def split: HttpEvent.splits)

lemma foldl_record_calls:
  "calls (transferState (foldl (\<lambda>s e. record_response fw k e s) s es)) =
     calls (transferState s) @ map (\<lambda>r. Call_set k (snapshot fw r)) (responses es)"
proof (induction es arbitrary: s)
  case Nil
  show ?case by simp
next
  case (Cons e es)
  show ?case
    by (cases e) (simp_all add: Cons.IH record_response_Response record_response_Other set_ts_def)
qed

lemma foldl_record_store:
  "store (transferState (foldl (\<lambda>s e. record_response fw k e s) s es)) =
     (case responses es of [] \<Rightarrow> store (transferState s)
      | r # rs \<Rightarrow> (store (transferState s))(k \<mapsto> snapshot fw (last (r # rs))))"
proof (induction es arbitrary: s)
  case Nil
  show ?case by simp
next
  case (Cons e es)
  show ?case
    by (cases e)
      (auto simp add: Cons.IH record_response_Response record_response_Other set_ts_def
        split: list.splits)
qed

lemma foldl_record_none:
  "responses es = [] \<Longrightarrow> foldl (\<lambda>s e. record_response fw k e s) s es = s"
proof (induction es arbitrary: s)
  case Nil
  show ?case by simp
next
  case (Cons e es)
  then show ?case by (cases e) (simp_all add: record_response_Other)
qed

lemma map_of_insert_property:
  "map_of ps k = None \<Longrightarrow> map_of (insert_property k v ps) = (map_of ps)(k \<mapsto> v)"
proof (induction ps)
  case Nil
  show ?case by simp
next
  case (Cons p ps)
  from Cons.prems have ne: "fst p \<noteq> k" and rest: "map_of ps k = None"
    by (cases p; simp split: if_splits)+
  show ?case
  proof (cases "key_before k (fst p)")
    case True
    then show ?thesis by (cases p) (auto simp add: fun_eq_iff)
  next
    case False
    with ne Cons.IH [OF rest] show ?thesis
      by (cases p) (auto simp add: fun_eq_iff)
  qed
qed

lemma values_update:
  "\<forall>p\<in>set ps. snd p \<noteq> None \<Longrightarrow> v \<noteq> None \<Longrightarrow>
   \<forall>p\<in>set (AList.update k v ps). snd p \<noteq> None"
  by (induction ps) auto

lemma set_insert_property: "set (insert_property k v ps) = insert (k, v) (set ps)"
  by (induction ps) auto

lemma map_of_own_assign:
  "map_of (own (assign k v object)) =
     (if k = ''__proto__'' \<and> proto object \<noteq> Some None then map_of (own object)
      else (map_of (own object))(k \<mapsto> v))"
proof (cases "k \<in> set (map fst (own object))")
  case True
  then show ?thesis by (simp add: assign_def update_conv')
next
  case False
  then have "map_of (own object) k = None"
    by (simp add: map_of_eq_None_iff)
  with False show ?thesis
    by (simp add: assign_def map_of_insert_property)
qed

lemma map_of_foldl_assign:
  "name \<noteq> ''__proto__'' \<Longrightarrow>
   map_of (own (foldl (\<lambda>m key. assign key (g key) m) object ks)) name =
     (if name \<in> set ks then Some (g name) else map_of (own object) name)"
  by (induction ks arbitrary: object) (simp_all add: map_of_own_assign)

lemma map_of_getHeadersMap:
  "name \<noteq> ''__proto__'' \<Longrightarrow>
   map_of (own (getHeadersMap fw h)) name =
     (if name \<in> set (keys fw h) then Some (getAll fw h name) else None)"
  by (simp add: getHeadersMap_def map_of_foldl_assign empty_object_def)

lemma values_assign:
  "\<forall>p\<in>set (own object). snd p \<noteq> None \<Longrightarrow> v \<noteq> None \<Longrightarrow>
   \<forall>p\<in>set (own (assign k v object)). snd p \<noteq> None"
  using values_update [of "own object" v k]
  by (auto simp add: assign_def set_insert_property)

lemma values_foldl_assign:
  "\<forall>p\<in>set (own object). snd p \<noteq> None \<Longrightarrow> \<forall>k\<in>set ks. g k \<noteq> None \<Longrightarrow>
   \<forall>p\<in>set (own (foldl (\<lambda>m key. assign key (g key) m) object ks)). snd p \<noteq> None"
proof (induction ks arbitrary: object)
  case Nil
  then show ?case by simp
next
  case (Cons k ks)
  from Cons.prems have "\<forall>p\<in>set (own (assign k (g k) object)). snd p \<noteq> None"
    by (intro values_assign) simp_all
  with Cons.prems show ?case
    by (simp add: Cons.IH)
qed

lemma values_getHeadersMap:
  "\<forall>p\<in>set (own (getHeadersMap (spec_framework d) h)). snd p \<noteq> None"
  unfolding getHeadersMap_def
  by (rule values_foldl_assign)
    (auto simp add: empty_object_def spec_framework_def map_of_eq_None_iff)

lemma spec_newHttpHeaders_own:
  "\<forall>p\<in>set (own object). snd p \<noteq> None \<Longrightarrow>
   map (\<lambda>p. (fst p, Some (snd p))) (spec_newHttpHeaders (Some object)) = own object"
proof -
  have "\<forall>p\<in>set ps. snd p \<noteq> None \<Longrightarrow>
      map (\<lambda>p. (fst p, Some (snd p)))
        (concat (map (\<lambda>p. case snd p of None \<Rightarrow> [] | Some vs \<Rightarrow> [(fst p, vs)]) ps)) = ps"
    for ps :: "(string \<times> string list option) list"
    by (induction ps) auto
  then show "\<forall>p\<in>set (own object). snd p \<noteq> None \<Longrightarrow>
      map (\<lambda>p. (fst p, Some (snd p))) (spec_newHttpHeaders (Some object)) = own object"
    by (simp add: spec_newHttpHeaders_def)
qed

lemma subscribe_Handle: "subscribe fw (Handle req) forwarded s = (forwarded, s)"
  by (simp add: subscribe_def)

lemma subscribe_ObservableOf:
  "subscribe fw (ObservableOf r) forwarded s = (([ResponseEvent r], Complete), s)"
  by (simp add: subscribe_def observableOf_def)

lemma subscribe_HandleTap:
  "subscribe fw (HandleTap req k) forwarded s =
     (forwarded, foldl (\<lambda>s e. record_response fw k e s) s (fst forwarded))"
  by (simp add: subscribe_def tap_eq)

lemma subscribe_flag: "isCacheActive (snd (subscribe fw ret forwarded s)) = isCacheActive s"
  by (cases ret) (simp_all add: subscribe_Handle subscribe_ObservableOf subscribe_HandleTap foldl_record_flag)

lemma subscribe_whitelist: "whitelist (snd (subscribe fw ret forwarded s)) = whitelist s"
  by (cases ret) (simp_all add: subscribe_Handle subscribe_ObservableOf subscribe_HandleTap foldl_record_whitelist)

lemma intercept_flag: "isCacheActive (snd (intercept fw s req)) \<Longrightarrow> isCacheActive s"
  by (auto simp add: intercept_def Let_def invalidate_flag split: if_splits prod.splits)

lemma step_inactive: "\<not> isCacheActive s \<Longrightarrow> \<not> isCacheActive (step fw s a)"
proof (cases a)
  case (Request req forwarded)
  assume off: "\<not> isCacheActive s"
  obtain ret s1 where i: "intercept fw s req = (ret, s1)"
    by (cases "intercept fw s req")
  from off intercept_flag [of fw s req] i have "\<not> isCacheActive s1"
    by auto
  with i Request show ?thesis
    by (simp add: subscribe_flag)
next
  case (IsStable b)
  assume "\<not> isCacheActive s"
  with IsStable show ?thesis by (simp add: isStable_next_def)
next
  case Continuation
  assume "\<not> isCacheActive s"
  with Continuation show ?thesis by (simp add: run_continuation_def on_stable_def)
qed

lemma run_inactive: "\<not> isCacheActive s \<Longrightarrow> \<not> isCacheActive (run fw s acts)"
  unfolding run_def by (induction acts arbitrary: s) (simp_all add: step_inactive)

lemma run_append: "run fw s (as @ bs) = run fw (run fw s as) bs"
  by (simp add: run_def)

lemma subscribe_calls:
  "calls (transferState (snd (subscribe fw ret forwarded s))) =
     calls (transferState s) @
       (case ret of HandleTap req k \<Rightarrow> map (\<lambda>r. Call_set k (snapshot fw r)) (responses (fst forwarded))
        | _ \<Rightarrow> [])"
  by (cases ret) (simp_all add: subscribe_Handle subscribe_ObservableOf subscribe_HandleTap foldl_record_calls)

lemma subscribe_new_calls:
  "new_calls s (snd (subscribe fw (HandleTap req k) forwarded s)) =
     map (\<lambda>r. Call_set k (snapshot fw r)) (responses (fst forwarded))"
  by (simp add: new_calls_def subscribe_calls)

lemma intercept_returned:
  "fst (intercept fw s req) =
     (if isMutating req \<or> \<not> isAllowed s req \<or> \<not> isCacheActive s then Handle req
      else case store (transferState s) (getKey req) of
             None \<Rightarrow> HandleTap req (getKey req)
           | Some v \<Rightarrow>
               ObservableOf
                 (newHttpResponse fw
                    \<lparr>i_body = t_body v, i_headers = newHttpHeaders fw (t_headers v),
                     i_status = t_status v, i_statusText = t_statusText v, i_url = t_url v\<rparr>))"
proof (cases "isMutating req \<or> \<not> isAllowed s req")
  case True
  then show ?thesis by (auto simp add: intercept_disqualified)
next
  case ok: False
  show ?thesis
  proof (cases "isCacheActive s")
    case False
    with ok show ?thesis by (simp add: intercept_inactive)
  next
    case True
    with ok show ?thesis
      by (cases "store (transferState s) (getKey req)") (simp_all add: intercept_hit intercept_miss)
  qed
qed

lemma intercept_new_calls:
  "new_calls s (snd (intercept fw s req)) =
     (if isMutating req \<or> \<not> isAllowed s req
      then [Call_remove (''G.'' @ url req), Call_remove (''H.'' @ url req),
            Call_remove (''P.'' @ url req)]
      else if \<not> isCacheActive s then []
      else case store (transferState s) (getKey req) of
             None \<Rightarrow> [Call_hasKey (getKey req)]
           | Some v \<Rightarrow> [Call_hasKey (getKey req), Call_get (getKey req)])"
proof (cases "isMutating req \<or> \<not> isAllowed s req")
  case True
  then show ?thesis by (simp add: intercept_disqualified new_calls_def invalidate_calls)
next
  case ok: False
  show ?thesis
  proof (cases "isCacheActive s")
    case False
    with ok show ?thesis by (simp add: intercept_inactive new_calls_def)
  next
    case True
    with ok show ?thesis
      by (cases "store (transferState s) (getKey req)")
        (simp_all add: intercept_hit intercept_miss new_calls_def)
  qed
qed

lemma intercept_calls:
  "calls (transferState (snd (intercept fw s req))) =
     calls (transferState s) @ new_calls s (snd (intercept fw s req))"
proof (cases "isMutating req \<or> \<not> isAllowed s req")
  case True
  then show ?thesis by (simp add: intercept_disqualified new_calls_def invalidate_calls)
next
  case ok: False
  show ?thesis
  proof (cases "isCacheActive s")
    case False
    with ok show ?thesis by (simp add: intercept_inactive new_calls_def)
  next
    case True
    with ok show ?thesis
      by (cases "store (transferState s) (getKey req)")
        (simp_all add: intercept_hit intercept_miss new_calls_def)
  qed
qed

lemma intercept_writes_nothing: "written_keys (new_calls s (snd (intercept fw s req))) = []"
  by (simp add: intercept_new_calls split: option.splits)

lemma subscribe_unchanged:
  "responses (fst forwarded) = [] \<Longrightarrow> snd (subscribe fw ret forwarded s) = s"
  by (cases ret) (simp_all add: subscribe_Handle subscribe_ObservableOf subscribe_HandleTap foldl_record_none)

lemma getKey_prefix:
  "\<not> isMutating req \<Longrightarrow> prefix ''G.'' (getKey req) \<or> prefix ''H.'' (getKey req)"
  by (auto simp add: isMutating_def getKey_def)

lemma written_keys_sets:
  "set (written_keys (map (\<lambda>r. Call_set k (f r)) rs)) \<subseteq> {k}"
  by (induction rs) simp_all

lemma intercept_tap_key:
  "fst (intercept fw s req) = HandleTap req' k \<Longrightarrow> k = getKey req \<and> \<not> isMutating req"
  by (auto simp add: intercept_returned split: if_splits option.splits)

lemma subscribe_writes:
  "k \<in> set (written_keys (new_calls s' (snd (subscribe fw (fst (intercept fw s req)) forwarded s')))) \<Longrightarrow>
   k = getKey req \<and> \<not> isMutating req"
proof (cases "fst (intercept fw s req)")
  case (Handle r)
  assume "k \<in> set (written_keys (new_calls s' (snd (subscribe fw (fst (intercept fw s req)) forwarded s'))))"
  with Handle show ?thesis by (simp add: subscribe_Handle new_calls_def)
next
  case (ObservableOf r)
  assume "k \<in> set (written_keys (new_calls s' (snd (subscribe fw (fst (intercept fw s req)) forwarded s'))))"
  with ObservableOf show ?thesis by (simp add: subscribe_ObservableOf new_calls_def)
next
  case (HandleTap r k')
  assume "k \<in> set (written_keys (new_calls s' (snd (subscribe fw (fst (intercept fw s req)) forwarded s'))))"
  with HandleTap written_keys_sets [of k' "snapshot fw" "responses (fst forwarded)"]
  have "k = k'" by (auto simp add: subscribe_new_calls)
  with HandleTap intercept_tap_key [of fw s req r k'] show ?thesis by simp
qed

lemma step_calls:
  "\<exists>cs. calls (transferState (step fw s a)) = calls (transferState s) @ cs \<and>
        (\<forall>k\<in>set (written_keys cs). prefix ''G.'' k \<or> prefix ''H.'' k)"
proof (cases a)
  case (IsStable b)
  then show ?thesis by (simp add: isStable_next_def)
next
  case Continuation
  then show ?thesis by (simp add: run_continuation_def on_stable_def)
next
  case (Request req forwarded)
  let ?s1 = "snd (intercept fw s req)"
  let ?ret = "fst (intercept fw s req)"
  let ?s2 = "snd (subscribe fw ?ret forwarded ?s1)"
  have st: "step fw s a = ?s2"
    using Request by (simp add: split_beta)
  have c2: "calls (transferState ?s2) = calls (transferState ?s1) @ new_calls ?s1 ?s2"
    by (simp add: subscribe_calls new_calls_def)
  have c1: "calls (transferState ?s1) = calls (transferState s) @ new_calls s ?s1"
    by (rule intercept_calls)
  have w: "\<forall>k\<in>set (written_keys (new_calls s ?s1 @ new_calls ?s1 ?s2)).
      prefix ''G.'' k \<or> prefix ''H.'' k"
    using subscribe_writes [of _ ?s1 fw s req forwarded] getKey_prefix [of req]
    by (auto simp add: written_keys_append intercept_writes_nothing)
  from st c1 c2 w show ?thesis by simp
qed

lemma run_calls:
  "\<exists>cs. calls (transferState (run fw s acts)) = calls (transferState s) @ cs \<and>
        (\<forall>k\<in>set (written_keys cs). prefix ''G.'' k \<or> prefix ''H.'' k)"
proof (induction acts arbitrary: s)
  case Nil
  show ?case by (simp add: run_def)
next
  case (Cons a acts)
  obtain cs1 where 1: "calls (transferState (step fw s a)) = calls (transferState s) @ cs1"
    and w1: "\<forall>k\<in>set (written_keys cs1). prefix ''G.'' k \<or> prefix ''H.'' k"
    using step_calls [of fw s a] by blast
  obtain cs2 where 2: "calls (transferState (run fw (step fw s a) acts)) =
      calls (transferState (step fw s a)) @ cs2"
    and w2: "\<forall>k\<in>set (written_keys cs2). prefix ''G.'' k \<or> prefix ''H.'' k"
    using Cons.IH [of "step fw s a"] by blast
  have r: "run fw s (a # acts) = run fw (step fw s a) acts"
    by (simp add: run_def)
  from 1 2 w1 w2 have "calls (transferState (run fw s (a # acts))) = calls (transferState s) @ (cs1 @ cs2) \<and>
      (\<forall>k\<in>set (written_keys (cs1 @ cs2)). prefix ''G.'' k \<or> prefix ''H.'' k)"
    by (auto simp add: r written_keys_append)
  then show ?case by blast
qed

lemma subscribe_store:
  "responses (fst forwarded) \<noteq> [] \<Longrightarrow>
   store (transferState (snd (subscribe fw (HandleTap req k) forwarded s))) =
     (store (transferState s))(k \<mapsto> snapshot fw (last (responses (fst forwarded))))"
  by (simp add: subscribe_HandleTap foldl_record_store split: list.splits)

lemma map_of_map_Some:
  "map_of (map (\<lambda>p. (fst p, Some (snd p))) hs) name = map_option Some (map_of hs name)"
  by (induction hs) auto

lemma spec_replay_headers:
  "name \<noteq> ''__proto__'' \<Longrightarrow>
   map_of (spec_newHttpHeaders (Some (getHeadersMap (spec_framework d) h))) name = map_of h name"
proof -
  assume n: "name \<noteq> ''__proto__''"
  let ?object = "getHeadersMap (spec_framework d) h"
  let ?hs = "spec_newHttpHeaders (Some ?object)"
  have "map (\<lambda>p. (fst p, Some (snd p))) ?hs = own ?object"
    by (rule spec_newHttpHeaders_own) (rule values_getHeadersMap)
  then have "map_of (own ?object) name = map_of (map (\<lambda>p. (fst p, Some (snd p))) ?hs) name"
    by simp
  also have "\<dots> = map_option Some (map_of ?hs name)"
    by (rule map_of_map_Some)
  finally have 1: "map_of (own ?object) name = map_option Some (map_of ?hs name)" .
  have 2: "map_of (own ?object) name = (if name \<in> fst ` set h then Some (map_of h name) else None)"
    using n by (simp add: map_of_getHeadersMap spec_framework_def)
  from 1 2 have 3: "map_option Some (map_of ?hs name) =
      (if name \<in> fst ` set h then Some (map_of h name) else None)"
    by simp
  show ?thesis
  proof (cases "name \<in> fst ` set h")
    case True
    with 3 show ?thesis
      by (cases "map_of ?hs name") simp_all
  next
    case False
    then have "map_of h name = None"
      by (simp add: map_of_eq_None_iff)
    with 3 False show ?thesis
      by (cases "map_of ?hs name") simp_all
  qed
qed

lemma intercept_promise: "stable_promise (snd (intercept fw s req)) = stable_promise s"
  by (auto simp add: intercept_def Let_def invalidateCacheEntry_def split: if_splits prod.splits)

lemma subscribe_promise: "stable_promise (snd (subscribe fw ret forwarded s)) = stable_promise s"
proof -
  have "stable_promise (foldl (\<lambda>s e. record_response fw k e s) s es) = stable_promise s"
    for k and es :: "('a, 'b, 'c) HttpEvent list"
    by (induction es arbitrary: s) (simp_all add: record_response_def split: HttpEvent.splits)
  then show ?thesis
    by (cases ret) (simp_all add: subscribe_Handle subscribe_ObservableOf subscribe_HandleTap)
qed

lemma step_queued:
  "stable_promise s = Queued \<or> \<not> isCacheActive s \<Longrightarrow>
   stable_promise (step fw s a) = Queued \<or> \<not> isCacheActive (step fw s a)"
proof (cases "isCacheActive s")
  case False
  then show ?thesis by (simp add: step_inactive)
next
  case True
  assume "stable_promise s = Queued \<or> \<not> isCacheActive s"
  with True have q: "stable_promise s = Queued" by simp
  show ?thesis
  proof (cases a)
    case (Request req forwarded)
    with q show ?thesis
      by (simp add: split_beta subscribe_promise intercept_promise)
  next
    case (IsStable b)
    with q show ?thesis by (simp add: isStable_next_def)
  next
    case Continuation
    with q show ?thesis by (simp add: run_continuation_def on_stable_def)
  qed
qed

lemma run_queued:
  "stable_promise s = Queued \<or> \<not> isCacheActive s \<Longrightarrow>
   stable_promise (run fw s acts) = Queued \<or> \<not> isCacheActive (run fw s acts)"
proof (induction acts arbitrary: s)
  case Nil
  then show ?case by (simp add: run_def)
next
  case (Cons a acts)
  have "run fw s (a # acts) = run fw (step fw s a) acts"
    by (simp add: run_def)
  with Cons.IH [OF step_queued [OF Cons.prems]] show ?case by simp
qed

lemma run_after_continuation:
  "stable_promise s0 = Pending \<Longrightarrow>
   \<not> isCacheActive (run fw s0 (IsStable True # turn @ Continuation # acts))"
proof -
  assume p: "stable_promise s0 = Pending"
  let ?s2 = "run fw (isStable_next True s0) turn"
  from p have "stable_promise (isStable_next True s0) = Queued"
    by (simp add: isStable_next_def)
  then have "stable_promise ?s2 = Queued \<or> \<not> isCacheActive ?s2"
    by (intro run_queued) simp
  then have "\<not> isCacheActive (run_continuation ?s2)"
    by (auto simp add: run_continuation_def on_stable_def)
  then have "\<not> isCacheActive (run fw (run_continuation ?s2) acts)"
    by (rule run_inactive)
  moreover have "run fw s0 (IsStable True # turn @ Continuation # acts) =
      run fw (run_continuation ?s2) acts"
    by (simp add: run_def)
  ultimately show ?thesis by simp
qed

subsection \<open>Recording and replay\<close>

text \<open>
  C1, as stated, fails in two ways. The first call records a snapshot only when the
  forwarded observable delivers a response: when it ends with an error before any
  response, nothing is stored and the second call forwards the request again. And a
  header named \<^verbatim>\<open>__proto__\<close> is not recorded: for a response with the headers \<^verbatim>\<open>__proto__\<close>
  (values \<^verbatim>\<open>a\<close>, \<^verbatim>\<open>b\<close>) and \<^verbatim>\<open>X\<close>, the snapshot has the one property \<^verbatim>\<open>X\<close>, and the replayed
  response has no header \<^verbatim>\<open>__proto__\<close>.
\<close>

theorem round_trip_counterexample:
  "http_method get_x = ''GET'' \<and> isAllowed fresh get_x \<and> isCacheActive fresh \<and>
   store (transferState fresh) (getKey get_x) = None \<and>
   fst (subscribe sample_fw (fst (intercept sample_fw fresh get_x))
          ([] :: (string, (string \<times> string list) list, unit) HttpEvent list, Error ''reset'')
          (snd (intercept sample_fw fresh get_x))) = ([], Error ''reset'') \<and>
   isCacheActive
     (snd (subscribe sample_fw (fst (intercept sample_fw fresh get_x))
          ([] :: (string, (string \<times> string list) list, unit) HttpEvent list, Error ''reset'')
          (snd (intercept sample_fw fresh get_x)))) \<and>
   store (transferState
     (snd (subscribe sample_fw (fst (intercept sample_fw fresh get_x))
          ([] :: (string, (string \<times> string list) list, unit) HttpEvent list, Error ''reset'')
          (snd (intercept sample_fw fresh get_x))))) (getKey get_x) = None \<and>
   fst (intercept sample_fw
     (snd (subscribe sample_fw (fst (intercept sample_fw fresh get_x))
          ([] :: (string, (string \<times> string list) list, unit) HttpEvent list, Error ''reset'')
          (snd (intercept sample_fw fresh get_x)))) get_x) = HandleTap get_x ''G./api/x'' \<and>
   handle_calls (fst (intercept sample_fw
     (snd (subscribe sample_fw (fst (intercept sample_fw fresh get_x))
          ([] :: (string, (string \<times> string list) list, unit) HttpEvent list, Error ''reset'')
          (snd (intercept sample_fw fresh get_x)))) get_x)) = [get_x] \<and>
   map_of (r_headers response_p) ''__proto__'' = Some [''a'', ''b''] \<and>
   store (transferState
     (snd (subscribe sample_fw (fst (intercept sample_fw fresh get_x))
          ([ResponseEvent response_p :: (string, (string \<times> string list) list, unit) HttpEvent],
           Complete :: string ending)
          (snd (intercept sample_fw fresh get_x))))) ''G./api/x'' =
     Some \<lparr>t_body = Some ''three'',
           t_headers = Some \<lparr>own = [(''X'', Some [''c''])], proto = Some (Some [''a'', ''b''])\<rparr>,
           t_status = Some 200, t_statusText = Some ''OK'', t_url = Some ''/api/x''\<rparr> \<and>
   fst (intercept sample_fw
     (snd (subscribe sample_fw (fst (intercept sample_fw fresh get_x))
          ([ResponseEvent response_p :: (string, (string \<times> string list) list, unit) HttpEvent],
           Complete :: string ending)
          (snd (intercept sample_fw fresh get_x)))) get_x) =
     ObservableOf
       \<lparr>r_body = ''three'', r_headers = [(''X'', [''c''])], r_status = 200,
        r_statusText = ''OK'', r_url = Some ''/api/x''\<rparr>"
proof -
  have a: "isCacheActive fresh" "\<not> isMutating get_x" "isAllowed fresh get_x"
    "store (transferState fresh) (getKey get_x) = None"
    by (simp_all add: fresh_def new_interceptor_def empty_ts_def isMutating_def isAllowed_def get_x_def)
  have k: "getKey get_x = ''G./api/x''" "http_method get_x = ''GET''"
    by (simp_all add: getKey_def get_x_def)
  let ?s1 = "fresh\<lparr>transferState := (transferState fresh)\<lparr>calls := [Call_hasKey ''G./api/x'']\<rparr>\<rparr>"
  have i: "intercept sample_fw fresh get_x = (HandleTap get_x ''G./api/x'', ?s1)"
    using a k intercept_miss [of get_x fresh sample_fw]
    by (simp add: fresh_def new_interceptor_def empty_ts_def)
  have b: "isCacheActive ?s1" "isAllowed ?s1 get_x"
    "store (transferState ?s1) (getKey get_x) = None"
    using a by (simp_all add: isAllowed_def)
  have 1: "fst (subscribe sample_fw (HandleTap get_x ''G./api/x'')
          ([] :: (string, (string \<times> string list) list, unit) HttpEvent list, Error ''reset'') ?s1) =
        ([], Error ''reset'')"
    "snd (subscribe sample_fw (HandleTap get_x ''G./api/x'')
          ([] :: (string, (string \<times> string list) list, unit) HttpEvent list, Error ''reset'') ?s1) = ?s1"
    by (simp_all add: subscribe_HandleTap)
  have 2: "intercept sample_fw ?s1 get_x =
      (HandleTap get_x ''G./api/x'',
       ?s1\<lparr>transferState := (transferState ?s1)
           \<lparr>calls := calls (transferState ?s1) @ [Call_hasKey ''G./api/x'']\<rparr>\<rparr>)"
    using intercept_miss [OF a(2) b(2) b(1) b(3), of sample_fw] k by simp
  have h: "getHeadersMap sample_fw (r_headers response_p) =
      \<lparr>own = [(''X'', Some [''c''])], proto = Some (Some [''a'', ''b''])\<rparr>"
    by (simp add: getHeadersMap_def sample_fw_def spec_framework_def response_p_def assign_def
        empty_object_def)
  let ?snap = "\<lparr>t_body = Some ''three'',
           t_headers = Some \<lparr>own = [(''X'', Some [''c''])], proto = Some (Some [''a'', ''b''])\<rparr>,
           t_status = Some 200, t_statusText = Some ''OK'', t_url = Some ''/api/x''\<rparr>"
  have sn: "snapshot sample_fw response_p = ?snap"
    by (simp add: snapshot_def h) (simp add: response_p_def)
  let ?s2 = "snd (subscribe sample_fw (HandleTap get_x ''G./api/x'')
          ([ResponseEvent response_p :: (string, (string \<times> string list) list, unit) HttpEvent],
           Complete :: string ending) ?s1)"
  have st: "store (transferState ?s2) ''G./api/x'' = Some ?snap"
    by (simp add: subscribe_HandleTap record_response_Response set_ts_def sn)
  have c: "isCacheActive ?s2" "isAllowed ?s2 get_x"
    using b by (simp_all add: subscribe_flag isAllowed_def subscribe_whitelist)
  have 3: "fst (intercept sample_fw ?s2 get_x) =
      ObservableOf
       \<lparr>r_body = ''three'', r_headers = [(''X'', [''c''])], r_status = 200,
        r_statusText = ''OK'', r_url = Some ''/api/x''\<rparr>"
    using intercept_hit [OF a(2) c(2) c(1), of ?snap sample_fw] st k
    by (simp add: sample_fw_def spec_framework_def spec_newHttpResponse_def
        spec_newHttpHeaders_def)
  have p: "map_of (r_headers response_p) ''__proto__'' = Some [''a'', ''b'']"
    by (simp add: response_p_def)
  show ?thesis
    unfolding i fst_conv snd_conv 1 2
    using a k b p st 3 by simp
qed

text \<open>
  C1, amended. Let the request be a GET or a HEAD and allowed, the flag true and no entry
  under the request's key, and let the observable forwarded for the first call deliver at
  least one response to the subscriber. Then the first call forwards the request and
  passes the forwarded observable on as it is; afterwards the store holds, under the
  request's key, the snapshot of the last response delivered, and the flag is still
  true. The second call with the same request does not call the handler and leaves the
  contents of the store as they are. It returns a response whose body, status, status text
  and URL are those of the snapshot, and whose headers are the properties of the
  snapshot's headers, name by name in their order, each with all its values in their
  order. Every header of the response delivered whose name is not \<^verbatim>\<open>__proto__\<close> is among
  them with all its values in their order.
\<close>

theorem round_trip:
  "http_method req = ''GET'' \<or> http_method req = ''HEAD'' \<Longrightarrow> isAllowed s req \<Longrightarrow>
   isCacheActive s \<Longrightarrow> store (transferState s) (getKey req) = None \<Longrightarrow>
   responses (fst forwarded) \<noteq> [] \<Longrightarrow>
   (let fw = spec_framework d;
        ret1 = fst (intercept fw s req);
        s1 = snd (intercept fw s req);
        s2 = snd (subscribe fw ret1 forwarded s1);
        r = last (responses (fst forwarded));
        snap = snapshot fw r;
        ret2 = fst (intercept fw s2 req);
        s3 = snd (intercept fw s2 req);
        replay = r\<lparr>r_headers := spec_newHttpHeaders (t_headers snap)\<rparr>
    in handle_calls ret1 = [req] \<and>
       fst (subscribe fw ret1 forwarded s1) = forwarded \<and>
       store (transferState s2) (getKey req) = Some snap \<and>
       isCacheActive s2 \<and>
       ret2 = ObservableOf replay \<and>
       handle_calls ret2 = [] \<and>
       store (transferState s3) = store (transferState s2) \<and>
       t_body snap = Some (r_body replay) \<and>
       t_status snap = Some (r_status replay) \<and>
       t_statusText snap = Some (r_statusText replay) \<and>
       t_url snap = r_url replay \<and>
       map_option own (t_headers snap) =
         Some (map (\<lambda>p. (fst p, Some (snd p))) (r_headers replay)) \<and>
       (name \<noteq> ''__proto__'' \<longrightarrow> map_of (r_headers replay) name = map_of (r_headers r) name))"
proof -
  assume m: "http_method req = ''GET'' \<or> http_method req = ''HEAD''"
    and al: "isAllowed s req" and act: "isCacheActive s"
    and miss: "store (transferState s) (getKey req) = None"
    and resp: "responses (fst forwarded) \<noteq> []"
  let ?fw = "spec_framework d"
  let ?r = "last (responses (fst forwarded))"
  let ?snap = "snapshot ?fw ?r"
  let ?replay = "?r\<lparr>r_headers := spec_newHttpHeaders (t_headers ?snap)\<rparr>"
  from m have nm: "\<not> isMutating req"
    by (auto simp add: isMutating_def)
  let ?s1 = "s\<lparr>transferState := (transferState s)
           \<lparr>calls := calls (transferState s) @ [Call_hasKey (getKey req)]\<rparr>\<rparr>"
  have i1: "intercept ?fw s req = (HandleTap req (getKey req), ?s1)"
    using nm al act miss by (rule intercept_miss)
  let ?s2 = "snd (subscribe ?fw (HandleTap req (getKey req)) forwarded ?s1)"
  have d: "fst (subscribe ?fw (HandleTap req (getKey req)) forwarded ?s1) = forwarded"
    by (simp add: subscribe_HandleTap)
  have st2: "store (transferState ?s2) = (store (transferState s))(getKey req \<mapsto> ?snap)"
    using resp by (simp add: subscribe_store)
  have f2: "isCacheActive ?s2"
    using act by (simp add: subscribe_flag)
  have w2: "isAllowed ?s2 req"
    using al by (simp add: isAllowed_def subscribe_whitelist)
  have hit: "store (transferState ?s2) (getKey req) = Some ?snap"
    by (simp add: st2)
  have built: "newHttpResponse ?fw
      \<lparr>i_body = t_body ?snap, i_headers = newHttpHeaders ?fw (t_headers ?snap),
       i_status = t_status ?snap, i_statusText = t_statusText ?snap, i_url = t_url ?snap\<rparr> =
      ?replay"
    by (simp add: spec_framework_def spec_newHttpResponse_def snapshot_def)
  have i2: "intercept ?fw ?s2 req =
      (ObservableOf ?replay,
       ?s2\<lparr>transferState := (transferState ?s2)
           \<lparr>calls := calls (transferState ?s2) @ [Call_hasKey (getKey req), Call_get (getKey req)]\<rparr>\<rparr>)"
    using intercept_hit [OF nm w2 f2 hit, of ?fw] built by simp
  have fields: "t_body ?snap = Some (r_body ?replay)" "t_status ?snap = Some (r_status ?replay)"
    "t_statusText ?snap = Some (r_statusText ?replay)" "t_url ?snap = r_url ?replay"
    by (simp_all add: snapshot_def)
  have hs: "map_option own (t_headers ?snap) =
      Some (map (\<lambda>p. (fst p, Some (snd p))) (r_headers ?replay))"
    using spec_newHttpHeaders_own [OF values_getHeadersMap [of d "r_headers ?r"]]
    by (simp add: snapshot_def)
  have cap: "name \<noteq> ''__proto__'' \<longrightarrow> map_of (r_headers ?replay) name = map_of (r_headers ?r) name"
    by (simp add: snapshot_def spec_replay_headers)
  show ?thesis
    unfolding Let_def i1 fst_conv snd_conv i2
    using d hit f2 fields hs cap by simp
qed

theorem round_trip_witness:
  "http_method get_x = ''GET'' \<and> isAllowed fresh get_x \<and> isCacheActive fresh \<and>
   store (transferState fresh) (getKey get_x) = None \<and>
   responses (fst ([OtherEvent (), ResponseEvent response_x], Complete :: string ending)) = [response_x] \<and>
   snapshot sample_fw response_x =
     \<lparr>t_body = Some ''one'',
      t_headers = Some \<lparr>own = [(''X'', Some [''a'', ''b''])], proto = None\<rparr>,
      t_status = Some 200, t_statusText = Some ''OK'', t_url = Some ''/api/x''\<rparr> \<and>
   store (transferState
     (snd (subscribe sample_fw (fst (intercept sample_fw fresh get_x))
        ([OtherEvent (), ResponseEvent response_x], Complete :: string ending)
        (snd (intercept sample_fw fresh get_x))))) ''G./api/x'' =
     Some (snapshot sample_fw response_x) \<and>
   fst (intercept sample_fw
     (snd (subscribe sample_fw (fst (intercept sample_fw fresh get_x))
        ([OtherEvent (), ResponseEvent response_x], Complete :: string ending)
        (snd (intercept sample_fw fresh get_x)))) get_x) =
     ObservableOf response_x \<and>
   map_of (r_headers response_x) ''X'' = Some [''a'', ''b'']"
proof -
  have a: "http_method get_x = ''GET'' \<or> http_method get_x = ''HEAD''"
    "isAllowed fresh get_x" "isCacheActive fresh"
    "store (transferState fresh) (getKey get_x) = None"
    by (simp_all add: fresh_def new_interceptor_def empty_ts_def isAllowed_def get_x_def)
  have r: "responses (fst ([OtherEvent (), ResponseEvent response_x], Complete :: string ending)) \<noteq> []"
    by simp
  have k: "getKey get_x = ''G./api/x''" "http_method get_x = ''GET''"
    by (simp_all add: getKey_def get_x_def)
  have h: "getHeadersMap sample_fw (r_headers response_x) =
      \<lparr>own = [(''X'', Some [''a'', ''b''])], proto = None\<rparr>"
    by (simp add: getHeadersMap_def sample_fw_def spec_framework_def response_x_def assign_def
        empty_object_def)
  have sn: "snapshot sample_fw response_x =
     \<lparr>t_body = Some ''one'',
      t_headers = Some \<lparr>own = [(''X'', Some [''a'', ''b''])], proto = None\<rparr>,
      t_status = Some 200, t_statusText = Some ''OK'', t_url = Some ''/api/x''\<rparr>"
    by (simp add: snapshot_def h) (simp add: response_x_def)
  have nh: "response_x\<lparr>r_headers := spec_newHttpHeaders
      (Some \<lparr>own = [(''X'', Some [''a'', ''b''])], proto = None\<rparr>)\<rparr> = response_x"
    by (simp add: spec_newHttpHeaders_def response_x_def)
  have x: "map_of (r_headers response_x) ''X'' = Some [''a'', ''b'']"
    by (simp add: response_x_def)
  from round_trip [OF a r, of sample_default "''X''"] a k sn nh x
  show ?thesis by (simp add: Let_def sample_fw_def [symmetric])
qed

subsection \<open>The cache activity flag\<close>

text \<open>
  C2. The flag of a new instance is true, and over any sequence of requests, stability
  signals and runs of the queued continuation, a flag that is false after some prefix of
  the sequence is false after every longer prefix. The recording side effect of a returned observable, whenever
  it runs, leaves the flag as it is.
\<close>

theorem kill_switch_monotonic:
  "isCacheActive (new_interceptor ts wl) \<and>
   (\<not> isCacheActive (run fw (new_interceptor ts wl) as) \<longrightarrow>
    \<not> isCacheActive (run fw (new_interceptor ts wl) (as @ bs))) \<and>
   isCacheActive (record_response fw k event s) = isCacheActive s"
proof -
  have "isCacheActive (record_response fw k event s) = isCacheActive s"
    by (cases event) (simp_all add: record_response_def)
  then show ?thesis
    by (simp add: new_interceptor_def run_append run_inactive)
qed

theorem kill_switch_monotonic_witness:
  "\<not> isCacheActive (run sample_fw fresh [IsStable True, Continuation :: (string, (string \<times> string list) list, unit, string) action]) \<and>
   \<not> isCacheActive
       (run sample_fw fresh
          ([IsStable True, Continuation] @ [Request get_x ([ResponseEvent response_x], Complete) ::
             (string, (string \<times> string list) list, unit, string) action])) \<and>
   \<not> isCacheActive
       (record_response sample_fw ''G./api/x''
          (ResponseEvent response_x :: (string, (string \<times> string list) list, unit) HttpEvent)
          (on_stable fresh))"
proof -
  have off: "\<not> isCacheActive (run sample_fw fresh [IsStable True, Continuation :: (string, (string \<times> string list) list, unit, string) action])"
    "\<not> isCacheActive (on_stable fresh)"
    by (simp_all add: run_def on_stable_def isStable_next_def run_continuation_def fresh_def new_interceptor_def)
  from kill_switch_monotonic
         [of empty_ts "Some [\<lparr>wl_url = ''/api''\<rparr>]" sample_fw
            "[IsStable True, Continuation :: (string, (string \<times> string list) list, unit, string) action]"
            "[Request get_x ([ResponseEvent response_x], Complete)]"
            "''G./api/x''"
            "ResponseEvent response_x :: (string, (string \<times> string list) list, unit) HttpEvent"
            "on_stable fresh"]
       off
  show ?thesis by (simp add: fresh_def)
qed

subsection \<open>Disqualification\<close>

text \<open>
  C3. A call of \<open>intercept\<close> whose request is mutating or not allowed forwards the request,
  leaves the flag false, and calls \<^verbatim>\<open>remove\<close> on the store for the keys \<^verbatim>\<open>'G.' + url\<close>,
  \<^verbatim>\<open>'H.' + url\<close> and \<^verbatim>\<open>'P.' + url\<close>, in this order and with no other call, whatever the flag
  was before and whether or not the keys were present.
\<close>

theorem disqualification:
  "isMutating req \<or> \<not> isAllowed s req \<Longrightarrow>
   fst (intercept fw s req) = Handle req \<and>
   \<not> isCacheActive (snd (intercept fw s req)) \<and>
   store (transferState (snd (intercept fw s req))) =
     (store (transferState s))
       (''G.'' @ url req := None, ''H.'' @ url req := None, ''P.'' @ url req := None) \<and>
   calls (transferState (snd (intercept fw s req))) =
     calls (transferState s) @
       [Call_remove (''G.'' @ url req), Call_remove (''H.'' @ url req),
        Call_remove (''P.'' @ url req)]"
  by (simp add: intercept_disqualified invalidate_flag invalidate_store invalidate_calls)

theorem disqualification_witness:
  "isMutating post_x \<and>
   fst (intercept sample_fw (on_stable cached) post_x) = Handle post_x \<and>
   \<not> isCacheActive (snd (intercept sample_fw (on_stable cached) post_x)) \<and>
   store (transferState (on_stable cached)) ''G./api/x'' = Some (snapshot sample_fw response_x) \<and>
   store (transferState (snd (intercept sample_fw (on_stable cached) post_x))) ''G./api/x'' = None \<and>
   calls (transferState (snd (intercept sample_fw (on_stable cached) post_x))) =
     [Call_remove ''G./api/x'', Call_remove ''H./api/x'', Call_remove ''P./api/x'']"
proof -
  have m: "isMutating post_x"
    by (simp add: isMutating_def post_x_def)
  have u: "url post_x = ''/api/x''"
    by (simp add: post_x_def)
  have c: "calls (transferState (on_stable cached)) = []"
    by (simp add: on_stable_def cached_def new_interceptor_def)
  have st: "store (transferState (on_stable cached)) ''G./api/x'' = Some (snapshot sample_fw response_x)"
    by (simp add: on_stable_def cached_def new_interceptor_def)
  from disqualification [of post_x "on_stable cached" sample_fw] m u c st show ?thesis
    by simp
qed


subsection \<open>After stability\<close>

text \<open>
  C4, as stated, fails in two ways. Once the flag has been set false, a mutating request
  still removes the three key variants of its URL from the store. And the stability
  signal does not set the flag when it fires: it resolves a promise, whose continuation
  sets the flag once the running code has returned. A call made after the signal and
  before the continuation reads the store and answers from the cache.
\<close>

theorem after_stability_counterexample:
  "stable_promise cached = Pending \<and>
   \<not> isCacheActive (run_continuation (isStable_next True cached)) \<and>
   store (transferState (run_continuation (isStable_next True cached))) ''G./api/x'' \<noteq> None \<and>
   calls (transferState (run_continuation (isStable_next True cached))) = [] \<and>
   store (transferState
     (snd (intercept sample_fw (run_continuation (isStable_next True cached)) post_x)))
     ''G./api/x'' = None \<and>
   calls (transferState
     (snd (intercept sample_fw (run_continuation (isStable_next True cached)) post_x))) =
     [Call_remove ''G./api/x'', Call_remove ''H./api/x'', Call_remove ''P./api/x''] \<and>
   stable_promise (isStable_next True cached) = Queued \<and>
   isCacheActive (isStable_next True cached) \<and>
   fst (intercept sample_fw (isStable_next True cached) get_x) = ObservableOf response_x \<and>
   handle_calls (fst (intercept sample_fw (isStable_next True cached) get_x)) = [] \<and>
   calls (transferState (snd (intercept sample_fw (isStable_next True cached) get_x))) =
     [Call_hasKey ''G./api/x'', Call_get ''G./api/x'']"
proof -
  have c: "cached =
      \<lparr>isCacheActive = True,
       transferState = \<lparr>store = [''G./api/x'' \<mapsto> snapshot sample_fw response_x], calls = []\<rparr>,
       whitelist = Some [\<lparr>wl_url = ''/api''\<rparr>], stable_promise = Pending\<rparr>"
    by (simp add: cached_def new_interceptor_def)
  have h: "getHeadersMap sample_fw (r_headers response_x) =
      \<lparr>own = [(''X'', Some [''a'', ''b''])], proto = None\<rparr>"
    by (simp add: getHeadersMap_def sample_fw_def spec_framework_def response_x_def assign_def
        empty_object_def)
  have sn: "snapshot sample_fw response_x =
     \<lparr>t_body = Some ''one'',
      t_headers = Some \<lparr>own = [(''X'', Some [''a'', ''b''])], proto = None\<rparr>,
      t_status = Some 200, t_statusText = Some ''OK'', t_url = Some ''/api/x''\<rparr>"
    by (simp add: snapshot_def h) (simp add: response_x_def)
  have post: "isMutating post_x" "url post_x = ''/api/x''"
    by (simp_all add: isMutating_def post_x_def)
  have g: "\<not> isMutating get_x" "getKey get_x = ''G./api/x''"
    by (simp_all add: isMutating_def getKey_def get_x_def)
  have q: "isStable_next True cached = cached\<lparr>stable_promise := Queued\<rparr>"
    by (simp add: isStable_next_def c)
  have al: "isAllowed (cached\<lparr>stable_promise := Queued\<rparr>) get_x"
    by (simp add: isAllowed_def c get_x_def)
  have hit: "store (transferState (cached\<lparr>stable_promise := Queued\<rparr>)) (getKey get_x) =
      Some (snapshot sample_fw response_x)"
    by (simp add: c g)
  have act: "isCacheActive (cached\<lparr>stable_promise := Queued\<rparr>)"
    by (simp add: c)
  have nr: "newHttpResponse sample_fw
      \<lparr>i_body = Some ''one'',
       i_headers = newHttpHeaders sample_fw (Some \<lparr>own = [(''X'', Some [''a'', ''b''])], proto = None\<rparr>),
       i_status = Some 200, i_statusText = Some ''OK'', i_url = Some ''/api/x''\<rparr> = response_x"
    by (simp add: sample_fw_def spec_framework_def spec_newHttpResponse_def
        spec_newHttpHeaders_def response_x_def)
  have 1: "intercept sample_fw (cached\<lparr>stable_promise := Queued\<rparr>) get_x =
      (ObservableOf response_x,
       cached\<lparr>stable_promise := Queued,
              transferState := (transferState cached)
                \<lparr>calls := [Call_hasKey ''G./api/x'', Call_get ''G./api/x'']\<rparr>\<rparr>)"
    using intercept_hit [OF g(1) al act hit, of sample_fw] g(2) nr
    by (simp add: sn) (simp add: c)
  have 2: "run_continuation (isStable_next True cached) =
      cached\<lparr>isCacheActive := False, stable_promise := Continued\<rparr>"
    by (simp add: q run_continuation_def on_stable_def)
  have 3: "intercept sample_fw (cached\<lparr>isCacheActive := False, stable_promise := Continued\<rparr>) post_x =
      (Handle post_x,
       invalidateCacheEntry (url post_x)
         (cached\<lparr>isCacheActive := False, stable_promise := Continued\<rparr>))"
    using post intercept_disqualified [of post_x
        "cached\<lparr>isCacheActive := False, stable_promise := Continued\<rparr>" sample_fw]
    by (simp add: c)
  have 4: "intercept sample_fw (isStable_next True cached) get_x =
      (ObservableOf response_x,
       cached\<lparr>stable_promise := Queued,
              transferState := (transferState cached)
                \<lparr>calls := [Call_hasKey ''G./api/x'', Call_get ''G./api/x'']\<rparr>\<rparr>)"
    using 1 by (simp add: q)
  have 5: "stable_promise (isStable_next True cached) = Queued"
    "isCacheActive (isStable_next True cached)"
    by (simp_all add: q) (simp add: c)
  show ?thesis
    unfolding 2 3 4 fst_conv snd_conv
    using 5 by (simp add: invalidate_calls invalidate_store post) (simp add: c)
qed

text \<open>
  C4, amended. A value delivered by the stability signal leaves the flag as it is. Once
  the signal has delivered \<^verbatim>\<open>true\<close> and the continuation that it queued has run, and after
  any further requests and signals, every call of \<open>intercept\<close> forwards the request and
  returns the forwarded observable as it is, with the flag false. For a read-only,
  allowed request the instance is left exactly as it was: no call on the store is made.
  For a mutating or not allowed request the only calls on the store are the three
  removals.
\<close>

theorem after_stability:
  "stable_promise s0 = Pending \<Longrightarrow>
   (let s = run fw s0 (IsStable True # turn @ Continuation # acts);
        ret = fst (intercept fw s req);
        s' = snd (intercept fw s req)
    in isCacheActive (isStable_next b s0) = isCacheActive s0 \<and>
       \<not> isCacheActive s \<and>
       ret = Handle req \<and>
       subscribe fw ret forwarded s' = (forwarded, s') \<and>
       \<not> isCacheActive s' \<and>
       (if isMutating req \<or> \<not> isAllowed s req
        then calls (transferState s') =
               calls (transferState s) @
                 [Call_remove (''G.'' @ url req), Call_remove (''H.'' @ url req),
                  Call_remove (''P.'' @ url req)]
        else s' = s))"
proof -
  assume p: "stable_promise s0 = Pending"
  define s where "s = run fw s0 (IsStable True # turn @ Continuation # acts)"
  have off: "\<not> isCacheActive s"
    unfolding s_def using p by (rule run_after_continuation)
  have flag: "isCacheActive (isStable_next b s0) = isCacheActive s0"
    by (simp add: isStable_next_def)
  have "fst (intercept fw s req) = Handle req \<and>
       subscribe fw (fst (intercept fw s req)) forwarded (snd (intercept fw s req)) =
         (forwarded, snd (intercept fw s req)) \<and>
       \<not> isCacheActive (snd (intercept fw s req)) \<and>
       (if isMutating req \<or> \<not> isAllowed s req
        then calls (transferState (snd (intercept fw s req))) =
               calls (transferState s) @
                 [Call_remove (''G.'' @ url req), Call_remove (''H.'' @ url req),
                  Call_remove (''P.'' @ url req)]
        else snd (intercept fw s req) = s)"
  proof (cases "isMutating req \<or> \<not> isAllowed s req")
    case True
    then show ?thesis
      by (simp add: intercept_disqualified invalidate_flag invalidate_calls subscribe_Handle)
  next
    case False
    with off show ?thesis
      by (simp add: intercept_inactive subscribe_Handle)
  qed
  with off flag show ?thesis
    unfolding Let_def s_def by blast
qed

theorem after_stability_witness:
  "stable_promise cached = Pending \<and>
   \<not> isMutating get_x \<and>
   run sample_fw cached
     [IsStable True, Continuation :: (string, (string \<times> string list) list, unit, string) action] =
     cached\<lparr>isCacheActive := False, stable_promise := Continued\<rparr> \<and>
   isAllowed (cached\<lparr>isCacheActive := False, stable_promise := Continued\<rparr>) get_x \<and>
   store (transferState (cached\<lparr>isCacheActive := False, stable_promise := Continued\<rparr>))
     ''G./api/x'' \<noteq> None \<and>
   intercept sample_fw (cached\<lparr>isCacheActive := False, stable_promise := Continued\<rparr>) get_x =
     (Handle get_x, cached\<lparr>isCacheActive := False, stable_promise := Continued\<rparr>)"
proof -
  have p: "stable_promise cached = Pending"
    by (simp add: cached_def new_interceptor_def)
  have g: "\<not> isMutating get_x"
    by (simp add: isMutating_def get_x_def)
  have r: "run sample_fw cached
     [IsStable True, Continuation :: (string, (string \<times> string list) list, unit, string) action] =
     cached\<lparr>isCacheActive := False, stable_promise := Continued\<rparr>"
    using p by (simp add: run_def isStable_next_def run_continuation_def on_stable_def)
  have al: "isAllowed (cached\<lparr>isCacheActive := False, stable_promise := Continued\<rparr>) get_x"
    by (simp add: isAllowed_def cached_def new_interceptor_def get_x_def)
  have st: "store (transferState (cached\<lparr>isCacheActive := False, stable_promise := Continued\<rparr>))
     ''G./api/x'' \<noteq> None"
    by (simp add: cached_def new_interceptor_def)
  from after_stability [OF p, of sample_fw
      "[] :: (string, (string \<times> string list) list, unit, string) action list" "[]" get_x True
      "([], Complete) :: ((string, (string \<times> string list) list, unit) HttpEvent, string) observable"]
    g al p st r
  show ?thesis by (simp add: Let_def prod_eq_iff)
qed

subsection \<open>Writes on a cache miss\<close>

text \<open>
  C5, as stated, fails: the snapshot is written at every response of the forwarded
  observable, not only at the first. With two responses the store is written twice, the
  second write replacing the first snapshot.
\<close>

theorem recording_counterexample:
  "isCacheActive fresh \<and> \<not> isMutating get_x \<and> isAllowed fresh get_x \<and>
   store (transferState fresh) (getKey get_x) = None \<and>
   fst (intercept sample_fw fresh get_x) = HandleTap get_x ''G./api/x'' \<and>
   new_calls (snd (intercept sample_fw fresh get_x))
     (snd (subscribe sample_fw (HandleTap get_x ''G./api/x'')
        ([ResponseEvent response_x, OtherEvent (), ResponseEvent response_y], Complete :: string ending)
        (snd (intercept sample_fw fresh get_x)))) =
     [Call_set ''G./api/x'' (snapshot sample_fw response_x),
      Call_set ''G./api/x'' (snapshot sample_fw response_y)] \<and>
   snapshot sample_fw response_x \<noteq> snapshot sample_fw response_y"
proof -
  have a: "isCacheActive fresh" "\<not> isMutating get_x" "isAllowed fresh get_x"
    "store (transferState fresh) (getKey get_x) = None"
    by (simp_all add: fresh_def new_interceptor_def empty_ts_def isMutating_def isAllowed_def get_x_def)
  have k: "getKey get_x = ''G./api/x''"
    by (simp add: getKey_def get_x_def)
  have d: "snapshot sample_fw response_x \<noteq> snapshot sample_fw response_y"
    by (simp add: snapshot_def response_x_def response_y_def)
  from a k d show ?thesis
    by (simp add: intercept_miss new_calls_def subscribe_calls)
qed

text \<open>
  C5, amended. On a cache miss (flag true, request read-only and allowed, no entry under
  the key) the call of \<open>intercept\<close> itself writes nothing and returns the forwarded
  observable with the recording side effect attached. Whenever that observable is
  consumed, the calls made on the store are exactly one \<^verbatim>\<open>set\<close> of the snapshot under the
  request's key for each response it delivers, in order (so exactly one write when it
  delivers exactly one response, and none when it delivers none); the other events cause
  no call, and the observable is passed to the caller unmodified.
\<close>

theorem recording:
  "isCacheActive s \<Longrightarrow> \<not> isMutating req \<Longrightarrow> isAllowed s req \<Longrightarrow>
   store (transferState s) (getKey req) = None \<Longrightarrow>
   fst (intercept fw s req) = HandleTap req (getKey req) \<and>
   written_keys (new_calls s (snd (intercept fw s req))) = [] \<and>
   fst (subscribe fw (HandleTap req (getKey req)) forwarded s') = forwarded \<and>
   new_calls s' (snd (subscribe fw (HandleTap req (getKey req)) forwarded s')) =
     map (\<lambda>r. Call_set (getKey req) (snapshot fw r)) (responses (fst forwarded))"
proof -
  assume a: "isCacheActive s" "\<not> isMutating req" "isAllowed s req"
    "store (transferState s) (getKey req) = None"
  have 1: "fst (intercept fw s req) = HandleTap req (getKey req)"
    using a by (simp add: intercept_miss)
  have 2: "written_keys (new_calls s (snd (intercept fw s req))) = []"
    using a by (simp add: intercept_miss new_calls_def)
  have 3: "fst (subscribe fw (HandleTap req (getKey req)) forwarded s') = forwarded"
    by (simp add: subscribe_HandleTap)
  from 1 2 3 show ?thesis
    by (simp only: subscribe_new_calls simp_thms)
qed

theorem recording_witness:
  "responses (fst ([OtherEvent (), ResponseEvent response_x, OtherEvent ()], Error ''reset'')) = [response_x] \<and>
   fst (intercept sample_fw fresh get_x) = HandleTap get_x ''G./api/x'' \<and>
   fst (subscribe sample_fw (HandleTap get_x ''G./api/x'')
          ([OtherEvent (), ResponseEvent response_x, OtherEvent ()], Error ''reset'')
          (snd (intercept sample_fw fresh get_x))) =
     ([OtherEvent (), ResponseEvent response_x, OtherEvent ()], Error ''reset'') \<and>
   new_calls (snd (intercept sample_fw fresh get_x))
     (snd (subscribe sample_fw (HandleTap get_x ''G./api/x'')
        ([OtherEvent (), ResponseEvent response_x, OtherEvent ()], Error ''reset'')
        (snd (intercept sample_fw fresh get_x)))) =
     [Call_set ''G./api/x'' (snapshot sample_fw response_x)]"
proof -
  have a: "isCacheActive fresh" "\<not> isMutating get_x" "isAllowed fresh get_x"
    "store (transferState fresh) (getKey get_x) = None"
    by (simp_all add: fresh_def new_interceptor_def empty_ts_def isMutating_def isAllowed_def get_x_def)
  have k: "getKey get_x = ''G./api/x''"
    by (simp add: getKey_def get_x_def)
  from recording [OF a, of sample_fw
      "([OtherEvent (), ResponseEvent response_x, OtherEvent ()], Error ''reset'')"
      "snd (intercept sample_fw fresh get_x)"] k
  show ?thesis by simp
qed

subsection \<open>Key derivation\<close>

text \<open>
  C6. The cache key is the first character of the request's method, followed by a dot and
  the request's URL. A GET of \<^verbatim>\<open>/api/x\<close> has the key \<^verbatim>\<open>G./api/x\<close>, a HEAD of the same URL
  the different key \<^verbatim>\<open>H./api/x\<close>.
\<close>

theorem key_derivation:
  "getKey \<lparr>http_method = c # cs, url = u\<rparr> = c # CHR ''.'' # u \<and>
   getKey req = take 1 (http_method req) @ ''.'' @ url req \<and>
   getKey \<lparr>http_method = ''GET'', url = ''/api/x''\<rparr> = ''G./api/x'' \<and>
   getKey \<lparr>http_method = ''HEAD'', url = ''/api/x''\<rparr> = ''H./api/x'' \<and>
   getKey \<lparr>http_method = ''GET'', url = ''/api/x''\<rparr> \<noteq>
     getKey \<lparr>http_method = ''HEAD'', url = ''/api/x''\<rparr>"
  by (simp add: getKey_def)

theorem key_derivation_witness:
  "getKey \<lparr>http_method = ''DELETE'', url = ''/api/items''\<rparr> = ''D./api/items''"
  using key_derivation [of "CHR ''D''" "''ELETE''" "''/api/items''" get_x] by simp

subsection \<open>No allow-list\<close>

text \<open>
  C7. When the allow-list is unset or empty, no request is allowed, whatever its method and
  URL: every call of \<open>intercept\<close> disqualifies, that is, leaves the flag false, removes the
  three key variants, forwards the request and writes nothing.
\<close>

theorem no_whitelist:
  "(whitelist s = None \<or> whitelist s = Some []) \<longrightarrow>
   \<not> isAllowed s req \<and>
   fst (intercept fw s req) = Handle req \<and>
   \<not> isCacheActive (snd (intercept fw s req)) \<and>
   written_keys (new_calls s (snd (intercept fw s req))) = [] \<and>
   calls (transferState (snd (intercept fw s req))) =
     calls (transferState s) @
       [Call_remove (''G.'' @ url req), Call_remove (''H.'' @ url req),
        Call_remove (''P.'' @ url req)]"
proof
  assume w: "whitelist s = None \<or> whitelist s = Some []"
  then have n: "\<not> isAllowed s req"
    by (auto simp add: isAllowed_def)
  then have i: "intercept fw s req =
      (Handle req, invalidateCacheEntry (url req) (s\<lparr>isCacheActive := False\<rparr>))"
    by (simp add: intercept_disqualified)
  from n show "\<not> isAllowed s req \<and>
   fst (intercept fw s req) = Handle req \<and>
   \<not> isCacheActive (snd (intercept fw s req)) \<and>
   written_keys (new_calls s (snd (intercept fw s req))) = [] \<and>
   calls (transferState (snd (intercept fw s req))) =
     calls (transferState s) @
       [Call_remove (''G.'' @ url req), Call_remove (''H.'' @ url req),
        Call_remove (''P.'' @ url req)]"
    by (simp add: i invalidate_flag invalidate_calls new_calls_def)
qed

theorem no_whitelist_witness:
  "whitelist (new_interceptor empty_ts None) = None \<and>
   whitelist (new_interceptor empty_ts (Some [])) = Some [] \<and>
   \<not> isAllowed (new_interceptor empty_ts None) get_x \<and>
   \<not> isAllowed (new_interceptor empty_ts (Some [])) get_x \<and>
   fst (intercept sample_fw (new_interceptor empty_ts None) get_x) = Handle get_x \<and>
   fst (intercept sample_fw (new_interceptor empty_ts (Some [])) get_x) = Handle get_x \<and>
   \<not> isCacheActive (snd (intercept sample_fw (new_interceptor empty_ts None) get_x)) \<and>
   \<not> isCacheActive (snd (intercept sample_fw (new_interceptor empty_ts (Some [])) get_x))"
proof -
  have a: "whitelist (new_interceptor empty_ts None) = None"
    and b: "whitelist (new_interceptor empty_ts (Some [])) = Some []"
    by (simp_all add: new_interceptor_def)
  from no_whitelist [of "new_interceptor empty_ts None" get_x sample_fw]
       no_whitelist [of "new_interceptor empty_ts (Some [])" get_x sample_fw] a b
  show ?thesis by simp
qed

subsection \<open>Errors\<close>

text \<open>
  C8. The observable returned by \<open>intercept\<close> ends with an error only if the forwarded
  observable ends with that error. Whenever the request is forwarded, the returned
  observable is the forwarded one: the same values and the same end, in particular the
  same error. If the forwarded observable delivers no response, consuming it leaves the
  instance as it was: nothing is written to the store. The call of \<open>intercept\<close> itself
  never writes.
\<close>

theorem error_transparency:
  "(snd (fst (subscribe fw (fst (intercept fw s req)) (es, e) s')) = Error x \<longrightarrow> e = Error x) \<and>
   (handle_calls (fst (intercept fw s req)) \<noteq> [] \<longrightarrow>
      fst (subscribe fw (fst (intercept fw s req)) (es, e) s') = (es, e)) \<and>
   (responses es = [] \<longrightarrow> snd (subscribe fw (fst (intercept fw s req)) (es, e) s') = s') \<and>
   written_keys (new_calls s (snd (intercept fw s req))) = []"
proof -
  have 1: "snd (fst (subscribe fw ret (es, e) s')) = Error x \<longrightarrow> e = Error x" for ret
    by (cases ret) (simp_all add: subscribe_Handle subscribe_ObservableOf subscribe_HandleTap)
  have 2: "handle_calls ret \<noteq> [] \<longrightarrow> fst (subscribe fw ret (es, e) s') = (es, e)" for ret
    by (cases ret) (simp_all add: subscribe_Handle subscribe_HandleTap)
  have 3: "responses es = [] \<longrightarrow> snd (subscribe fw ret (es, e) s') = s'" for ret
    by (simp add: subscribe_unchanged)
  from 1 2 3 intercept_writes_nothing [of s fw req] show ?thesis
    by blast
qed

theorem error_transparency_witness:
  "handle_calls (fst (intercept sample_fw fresh get_x)) \<noteq> [] \<and>
   responses [OtherEvent ()] = ([] :: (string, (string \<times> string list) list) HttpResponse list) \<and>
   subscribe sample_fw (fst (intercept sample_fw fresh get_x)) ([OtherEvent ()], Error ''reset'')
       (snd (intercept sample_fw fresh get_x)) =
     (([OtherEvent ()], Error ''reset''), snd (intercept sample_fw fresh get_x)) \<and>
   written_keys (new_calls fresh (snd (intercept sample_fw fresh get_x))) = []"
proof -
  have a: "isCacheActive fresh" "\<not> isMutating get_x" "isAllowed fresh get_x"
    "store (transferState fresh) (getKey get_x) = None"
    by (simp_all add: fresh_def new_interceptor_def empty_ts_def isMutating_def isAllowed_def get_x_def)
  have h: "handle_calls (fst (intercept sample_fw fresh get_x)) \<noteq> []"
    using a by (simp add: intercept_miss)
  have r: "responses [OtherEvent ()] = ([] :: (string, (string \<times> string list) list) HttpResponse list)"
    by simp
  from error_transparency [of sample_fw fresh get_x "[OtherEvent ()]" "Error ''reset''"
      "snd (intercept sample_fw fresh get_x)" "''reset''"] h r
  show ?thesis by (simp add: prod_eq_iff)
qed

subsection \<open>The frame of a cache hit\<close>

text \<open>
  C9. When the flag is true, the request read-only and allowed, and the store has an entry
  under the request's key, a call of \<open>intercept\<close> leaves the contents of the store, the flag
  and the allow-list as they were. The only calls on the store are the two reads
  \<^verbatim>\<open>hasKey\<close> and \<^verbatim>\<open>get\<close>, the handler is not called, and consuming the returned observable
  changes nothing.
\<close>

theorem cache_hit_frame:
  "isCacheActive s \<Longrightarrow> \<not> isMutating req \<Longrightarrow> isAllowed s req \<Longrightarrow>
   store (transferState s) (getKey req) = Some v \<Longrightarrow>
   store (transferState (snd (intercept fw s req))) = store (transferState s) \<and>
   isCacheActive (snd (intercept fw s req)) = isCacheActive s \<and>
   whitelist (snd (intercept fw s req)) = whitelist s \<and>
   new_calls s (snd (intercept fw s req)) = [Call_hasKey (getKey req), Call_get (getKey req)] \<and>
   handle_calls (fst (intercept fw s req)) = [] \<and>
   snd (subscribe fw (fst (intercept fw s req)) forwarded (snd (intercept fw s req))) =
     snd (intercept fw s req)"
  by (simp add: intercept_hit new_calls_def subscribe_ObservableOf)

theorem cache_hit_frame_witness:
  "isCacheActive cached \<and> \<not> isMutating get_x \<and> isAllowed cached get_x \<and>
   store (transferState cached) (getKey get_x) = Some (snapshot sample_fw response_x) \<and>
   store (transferState (snd (intercept sample_fw cached get_x))) = store (transferState cached) \<and>
   isCacheActive (snd (intercept sample_fw cached get_x)) \<and>
   new_calls cached (snd (intercept sample_fw cached get_x)) =
     [Call_hasKey ''G./api/x'', Call_get ''G./api/x'']"
proof -
  have a: "isCacheActive cached" "\<not> isMutating get_x" "isAllowed cached get_x"
    "store (transferState cached) (getKey get_x) = Some (snapshot sample_fw response_x)"
    by (simp_all add: cached_def new_interceptor_def isMutating_def isAllowed_def get_x_def getKey_def)
  have k: "getKey get_x = ''G./api/x''"
    by (simp add: getKey_def get_x_def)
  from cache_hit_frame [OF a, of sample_fw
      "([], Complete) :: ((string, (string \<times> string list) list, unit) HttpEvent, string) observable"]
    a k
  show ?thesis by simp
qed

subsection \<open>The keys that are written\<close>

text \<open>
  C10. Over any sequence of requests and stability firings, every key the interceptor
  writes to the store begins with \<^verbatim>\<open>G.\<close> or \<^verbatim>\<open>H.\<close>, and none begins with \<^verbatim>\<open>P.\<close>. The same
  holds for the observable returned by one call, whenever and in whatever state it is
  consumed: it writes under the key of the request only. A call of \<open>intercept\<close> itself
  writes nothing, and a mutating request causes no write at all.
\<close>

theorem written_keys_read_only:
  "(\<forall>k\<in>set (written_keys (new_calls s (run fw s acts))).
      (prefix ''G.'' k \<or> prefix ''H.'' k) \<and> \<not> prefix ''P.'' k) \<and>
   (\<forall>k\<in>set (written_keys (new_calls s' (snd (subscribe fw (fst (intercept fw s req)) forwarded s')))).
      k = getKey req \<and> (prefix ''G.'' k \<or> prefix ''H.'' k) \<and> \<not> prefix ''P.'' k) \<and>
   written_keys (new_calls s (snd (intercept fw s req))) = [] \<and>
   (isMutating req \<longrightarrow> written_keys (new_calls s (step fw s (Request req forwarded))) = [])"
proof -
  have p: "prefix ''G.'' k \<or> prefix ''H.'' k \<Longrightarrow> \<not> prefix ''P.'' k" for k :: string
    by (auto simp add: prefix_def)
  obtain cs where c: "calls (transferState (run fw s acts)) = calls (transferState s) @ cs"
    and w: "\<forall>k\<in>set (written_keys cs). prefix ''G.'' k \<or> prefix ''H.'' k"
    using run_calls [of fw s acts] by blast
  from c have "new_calls s (run fw s acts) = cs"
    by (rule new_calls_append)
  with w p have 1: "\<forall>k\<in>set (written_keys (new_calls s (run fw s acts))).
      (prefix ''G.'' k \<or> prefix ''H.'' k) \<and> \<not> prefix ''P.'' k"
    by blast
  have 2: "\<forall>k\<in>set (written_keys (new_calls s' (snd (subscribe fw (fst (intercept fw s req)) forwarded s')))).
      k = getKey req \<and> (prefix ''G.'' k \<or> prefix ''H.'' k) \<and> \<not> prefix ''P.'' k"
    using subscribe_writes [of _ s' fw s req forwarded] getKey_prefix [of req] p by blast
  have 3: "written_keys (new_calls s (snd (intercept fw s req))) = []"
    by (rule intercept_writes_nothing)
  have 4: "isMutating req \<longrightarrow> written_keys (new_calls s (step fw s (Request req forwarded))) = []"
  proof
    assume m: "isMutating req"
    then have "step fw s (Request req forwarded) = snd (intercept fw s req)"
      by (simp add: intercept_disqualified subscribe_Handle)
    then show "written_keys (new_calls s (step fw s (Request req forwarded))) = []"
      by (simp add: intercept_writes_nothing)
  qed
  from 1 2 3 4 show ?thesis by blast
qed


theorem written_keys_read_only_witness:
  "written_keys
     (new_calls fresh
        (run sample_fw fresh
           [Request get_x ([ResponseEvent response_x], Complete :: string ending),
            Request post_x ([ResponseEvent response_y :: (string, (string \<times> string list) list, unit) HttpEvent], Complete)])) =
     [''G./api/x''] \<and>
   prefix ''G.'' ''G./api/x'' \<and>
   isMutating post_x \<and>
   written_keys
     (new_calls fresh
        (step sample_fw fresh
           (Request post_x ([ResponseEvent response_y :: (string, (string \<times> string list) list, unit) HttpEvent], Complete :: string ending)))) = []"
proof -
  have m: "isMutating post_x"
    by (simp add: isMutating_def post_x_def)
  have a: "isCacheActive fresh" "\<not> isMutating get_x" "isAllowed fresh get_x"
    "store (transferState fresh) (getKey get_x) = None"
    by (simp_all add: fresh_def new_interceptor_def empty_ts_def isMutating_def isAllowed_def get_x_def)
  have r: "written_keys
     (new_calls fresh
        (run sample_fw fresh
           [Request get_x ([ResponseEvent response_x], Complete :: string ending),
            Request post_x ([ResponseEvent response_y :: (string, (string \<times> string list) list, unit) HttpEvent], Complete)])) =
     [''G./api/x'']"
    using a m
    by (simp add: run_def intercept_miss intercept_disqualified subscribe_HandleTap subscribe_Handle
        record_response_Response new_calls_def invalidate_calls set_ts_def getKey_def get_x_def
        fresh_def new_interceptor_def empty_ts_def)
  from written_keys_read_only
         [of fresh sample_fw
            "[Request get_x ([ResponseEvent response_x], Complete :: string ending),
              Request post_x ([ResponseEvent response_y :: (string, (string \<times> string list) list, unit) HttpEvent], Complete)]"
            fresh post_x
            "([ResponseEvent response_y :: (string, (string \<times> string list) list, unit) HttpEvent], Complete :: string ending)"]
       m r
  show ?thesis by simp
qed

end
